theory Spec2Isabelle
  imports Main "HOL-Library.AList"
begin

section \<open>The Volatility wrapper: a bounded dispatcher with a live run registry\<close>

text \<open>
  The program (\<^verbatim>\<open>vol_wrapper.go\<close>) reads a list of module names, starts one goroutine
  per module behind a counting semaphore (a buffered channel), keeps the modules that
  are running in a \<^verbatim>\<open>sync.Map\<close>, and prints that map whenever a byte arrives on the
  standard input. The sequential parts are modelled as functions; the concurrent part is
  a transition system whose events are the atomic actions of the goroutines, so that a
  schedule (a list of events) determines a run.
\<close>

subsection \<open>The concurrency limit (\<^verbatim>\<open>main\<close>, lines 130-133)\<close>

text \<open>
  \<^verbatim>\<open>numGoroutines := runtime.NumCPU() - 1; if numGoroutines < 1 { numGoroutines = 1 }\<close>.
  \<^verbatim>\<open>runtime.NumCPU\<close> returns a positive machine integer, so the subtraction cannot wrap.
\<close>

definition numGoroutines :: "int \<Rightarrow> int" where
  "numGoroutines numCPU = (let n = numCPU - 1 in if n < 1 then 1 else n)"

subsection \<open>The output path (\<^verbatim>\<open>runModule\<close>, lines 26-27)\<close>

text \<open>
  \<^verbatim>\<open>strings.LastIndex(s, string(os.PathSeparator))\<close>: the index of the last occurrence of
  the separator in \<open>s\<close>, or \<open>-1\<close> when there is none. The separator is one byte.
\<close>

fun LastIndex :: "string \<Rightarrow> char \<Rightarrow> int" where
  "LastIndex [] c = - 1"
| "LastIndex (x # xs) c =
     (let r = LastIndex xs c in if 0 \<le> r then r + 1 else if x = c then 0 else - 1)"

text \<open>\<^verbatim>\<open>memoryImage[strings.LastIndex(memoryImage, sep)+1:]\<close>\<close>

definition memoryImageName :: "char \<Rightarrow> string \<Rightarrow> string" where
  "memoryImageName sep memoryImage = drop (nat (LastIndex memoryImage sep + 1)) memoryImage"

text \<open>\<^verbatim>\<open>fmt.Sprintf("%s%c%s_%s.csv", outputDir, os.PathSeparator, memoryImageName, module)\<close>\<close>

definition outputFile :: "char \<Rightarrow> string \<Rightarrow> string \<Rightarrow> string \<Rightarrow> string" where
  "outputFile sep outputDir memoryImage module =
     outputDir @ [sep] @ memoryImageName sep memoryImage @ ''_'' @ module @ ''.csv''"


subsection \<open>Reading the job list (\<^verbatim>\<open>main\<close>, lines 115-127)\<close>

text \<open>
  \<^verbatim>\<open>bufio.Scanner\<close> with its default split function \<^verbatim>\<open>ScanLines\<close>: a line ends at a
  newline, one carriage return before the newline is dropped, and a last line with no
  newline is returned when it is not empty. The scanner buffers at most
  \<^verbatim>\<open>MaxScanTokenSize\<close> bytes: a line that does not fit together with its newline stops
  the scan with \<^verbatim>\<open>ErrTooLong\<close>. The result is the list of tokens and whether
  \<^verbatim>\<open>scanner.Err()\<close> is an error.
\<close>

definition MaxScanTokenSize :: nat where
  "MaxScanTokenSize = 65536"

definition dropCR :: "string \<Rightarrow> string" where
  "dropCR d = (if d \<noteq> [] \<and> last d = CHR 0x0D then butlast d else d)"

fun scan_from :: "string \<Rightarrow> string \<Rightarrow> string list \<times> bool" where
  "scan_from cur [] =
     (if cur = [] then ([], False)
      else if MaxScanTokenSize \<le> length cur then ([], True)
      else ([dropCR cur], False))"
| "scan_from cur (c # cs) =
     (if MaxScanTokenSize \<le> length cur then ([], True)
      else if c = CHR 0x0A then
        (case scan_from [] cs of (toks, err) \<Rightarrow> (dropCR cur # toks, err))
      else scan_from (cur @ [c]) cs)"

definition scan_lines :: "string \<Rightarrow> string list \<times> bool" where
  "scan_lines content = scan_from [] content"

text \<open>
  The loop \<^verbatim>\<open>for scanner.Scan() { module := scanner.Text(); if module != "" { modules =
  append(modules, module) } }\<close>, with the slice as accumulator.
\<close>

fun collect_modules :: "string list \<Rightarrow> string list \<Rightarrow> string list" where
  "collect_modules modules [] = modules"
| "collect_modules modules (t # ts) =
     collect_modules (if t \<noteq> [] then modules @ [t] else modules) ts"



subsection \<open>Configuration and shared state\<close>

text \<open>
  What \<^verbatim>\<open>main\<close> has fixed when the dispatch loop starts: the four flags, the module
  list, the capacity of the channel \<^verbatim>\<open>sem\<close> and the path separator of the platform.
\<close>

record config =
  volatilityPath :: string
  memoryImage :: string
  outputDir :: string
  modules :: "string list"
  capacity :: nat
  PathSeparator :: char

text \<open>The lines the program prints, one constructor per \<^verbatim>\<open>Printf\<close>/\<^verbatim>\<open>Println\<close>.\<close>

datatype line =
    AllFlagsRequired
  | ErrCreateOutputDir
  | ErrReadingModules
  | ErrScanningModules
  | UsingUpTo nat
  | ErrCreateOutput string
  | RunningModule string
  | ErrRunning string
  | Completed string nat
  | MonHeader
  | MonModule string nat
  | MonFooter
  | AllCompleted nat

text \<open>
  \<^verbatim>\<open>exec.Cmd\<close>: the executable, its arguments, and where the standard output and the
  standard error go (\<open>None\<close> is Go's \<^verbatim>\<open>nil\<close>: the null device).
\<close>

record cmd =
  cmd_path :: string
  cmd_args :: "string list"
  cmd_stdout :: "string option"
  cmd_stderr :: "string option"

text \<open>
  \<^verbatim>\<open>exec.Command(volatilityPath, "-f", memoryImage, "-r", "csv", module)\<close> with
  \<^verbatim>\<open>cmd.Stdout = outfile\<close> and \<^verbatim>\<open>cmd.Stderr = nil\<close>.
\<close>

definition command :: "config \<Rightarrow> string \<Rightarrow> cmd" where
  "command cfg module =
     \<lparr>cmd_path = volatilityPath cfg,
      cmd_args = [''-f'', memoryImage cfg, ''-r'', ''csv'', module],
      cmd_stdout = Some (outputFile (PathSeparator cfg) (outputDir cfg) (memoryImage cfg) module),
      cmd_stderr = None\<rparr>"

text \<open>
  The control points of one goroutine \<^verbatim>\<open>go func(module) { runModule(...); <-sem }\<close>:
  before \<^verbatim>\<open>runningModules.Store\<close>; before \<^verbatim>\<open>os.Create\<close> (holding \<open>start\<close>); before
  \<^verbatim>\<open>cmd.Run\<close> returns; before the deferred \<^verbatim>\<open>runningModules.Delete\<close>; before the deferred
  \<^verbatim>\<open>wg.Done\<close>; before the receive from \<^verbatim>\<open>sem\<close>; finished. Deferred calls run last in,
  first out, so \<^verbatim>\<open>Delete\<close> runs before \<^verbatim>\<open>wg.Done\<close>.
\<close>

datatype pc = PStart | PCreate nat | PRun nat | PDelete | PDone | PRelease | PFinished

record goroutine =
  gmodule :: string
  gpc :: pc

text \<open>
  The control points of \<^verbatim>\<open>main\<close> in the loop over \<open>modules\<close>: at the head of iteration
  \<open>i\<close> (or, past the last module, at \<^verbatim>\<open>wg.Wait\<close>); after the send on \<^verbatim>\<open>sem\<close>; after
  \<^verbatim>\<open>wg.Add(1)\<close>; returned from \<^verbatim>\<open>wg.Wait\<close>, which ends the process.
\<close>

datatype mpc = MLoop nat | MAdd nat | MGo nat | MExited

text \<open>
  \<^verbatim>\<open>monitorKeyPress\<close>: blocked in \<^verbatim>\<open>ReadByte\<close>, or inside \<^verbatim>\<open>runningModules.Range\<close> with
  the keys it still has to reach before it returns (those the map held when it started)
  and the (key, value) pairs its callback has received so far. \<^verbatim>\<open>Range\<close> is not atomic:
  it walks the keys one at a time while the other goroutines run, loads the current
  value of the key it reaches and skips a key that has no value; it may also reach a key
  stored after it started (the documentation of \<^verbatim>\<open>sync.Map\<close>: no key is visited more
  than once, and \<^verbatim>\<open>Range\<close> does not necessarily correspond to any consistent snapshot of
  the contents).
\<close>

datatype monitor = MonWait | MonRange "string list" "(string \<times> nat) list"

record state =
  clock :: nat
  totalStart :: nat
  runningModules :: "(string \<times> nat) list"
  sem :: nat
  wg :: nat
  mainpc :: mpc
  gos :: "goroutine list"
  mon :: monitor
  fs :: "string \<Rightarrow> string option"
  console :: "line list"
  invocations :: "cmd list"
  panicked :: bool

text \<open>
  The state when the loop starts: \<^verbatim>\<open>"Using up to %d goroutines"\<close> is printed,
  \<open>totalStart\<close> is taken, the monitor is started, the channel and the wait group are
  empty. \<open>fs0\<close> is the file system (path to content) the program finds.
\<close>

definition init :: "config \<Rightarrow> (string \<Rightarrow> string option) \<Rightarrow> state" where
  "init cfg fs0 =
     \<lparr>clock = 0, totalStart = 0, runningModules = [], sem = 0, wg = 0, mainpc = MLoop 0,
      gos = [], mon = MonWait, fs = fs0, console = [UsingUpTo (capacity cfg)],
      invocations = [], panicked = False\<rparr>"

subsection \<open>Events and steps\<close>

text \<open>
  One event per atomic action. \<open>Create i ok\<close> and \<open>Run i out ok\<close> carry what the
  environment answers: whether \<^verbatim>\<open>os.Create\<close> succeeded; what the output file holds when
  \<^verbatim>\<open>cmd.Run\<close> returns (the tool writes through its own descriptor while it runs, so
  the program decides nothing about the content) and whether \<^verbatim>\<open>cmd.Run\<close> returned no
  error. \<open>KeyPress ok\<close> is a return of \<^verbatim>\<open>ReadByte\<close>, \<open>Visit k\<close> the moment \<^verbatim>\<open>Range\<close>
  reaches the key \<open>k\<close> (a call of its callback, or nothing when the key has no value),
  \<open>Tick\<close> the passing of time.
\<close>

datatype event =
    Tick
  | Acquire | AddWg | Go | Wait
  | Store nat | Create nat bool | Run nat string bool | Delete nat | Done nat | Release nat
  | KeyPress bool | Visit string | RangeEnd

definition at_pc :: "state \<Rightarrow> nat \<Rightarrow> pc option" where
  "at_pc s i = (if i < length (gos s) then Some (gpc (gos s ! i)) else None)"

definition set_pc :: "nat \<Rightarrow> pc \<Rightarrow> state \<Rightarrow> state" where
  "set_pc i p s = s\<lparr>gos := (gos s)[i := (gos s ! i)\<lparr>gpc := p\<rparr>]\<rparr>"

definition module_of :: "state \<Rightarrow> nat \<Rightarrow> string" where
  "module_of s i = gmodule (gos s ! i)"

definition path_of :: "config \<Rightarrow> string \<Rightarrow> string" where
  "path_of cfg module = outputFile (PathSeparator cfg) (outputDir cfg) (memoryImage cfg) module"

text \<open>\<^verbatim>\<open>sem <- struct{}{}\<close>: blocks while the channel is full.\<close>

definition step_Acquire :: "config \<Rightarrow> state \<Rightarrow> state option" where
  "step_Acquire cfg s =
     (case mainpc s of
        MLoop i \<Rightarrow>
          if i < length (modules cfg) \<and> sem s < capacity cfg
          then Some (s\<lparr>sem := sem s + 1, mainpc := MAdd i\<rparr>) else None
      | _ \<Rightarrow> None)"

text \<open>\<^verbatim>\<open>wg.Add(1)\<close>\<close>

definition step_AddWg :: "state \<Rightarrow> state option" where
  "step_AddWg s =
     (case mainpc s of
        MAdd i \<Rightarrow> Some (s\<lparr>wg := wg s + 1, mainpc := MGo i\<rparr>)
      | _ \<Rightarrow> None)"

text \<open>\<^verbatim>\<open>go func(module string) {...}(module)\<close>\<close>

definition step_Go :: "config \<Rightarrow> state \<Rightarrow> state option" where
  "step_Go cfg s =
     (case mainpc s of
        MGo i \<Rightarrow>
          if i < length (modules cfg)
          then Some (s\<lparr>gos := gos s @ [\<lparr>gmodule = modules cfg ! i, gpc = PStart\<rparr>],
                       mainpc := MLoop (i + 1)\<rparr>)
          else None
      | _ \<Rightarrow> None)"

text \<open>
  \<^verbatim>\<open>wg.Wait()\<close> after the loop: blocks while the counter is not zero; then the total
  is printed and \<^verbatim>\<open>main\<close> returns.
\<close>

definition step_Wait :: "config \<Rightarrow> state \<Rightarrow> state option" where
  "step_Wait cfg s =
     (case mainpc s of
        MLoop i \<Rightarrow>
          if i = length (modules cfg) \<and> wg s = 0
          then Some (s\<lparr>mainpc := MExited,
                       console := console s @ [AllCompleted (clock s - totalStart s)]\<rparr>)
          else None
      | _ \<Rightarrow> None)"

text \<open>\<^verbatim>\<open>start := time.Now(); runningModules.Store(module, start)\<close>\<close>

definition step_Store :: "nat \<Rightarrow> state \<Rightarrow> state option" where
  "step_Store i s =
     (case at_pc s i of
        Some PStart \<Rightarrow>
          Some (set_pc i (PCreate (clock s))
                  (s\<lparr>runningModules := AList.update (module_of s i) (clock s) (runningModules s)\<rparr>))
      | _ \<Rightarrow> None)"

text \<open>
  \<^verbatim>\<open>outfile, err := os.Create(outputFile)\<close>: on an error the message is printed and
  \<^verbatim>\<open>runModule\<close> returns into its deferred calls; otherwise the file exists and is empty,
  and \<^verbatim>\<open>"Running module"\<close> is printed.
\<close>

definition step_Create :: "config \<Rightarrow> nat \<Rightarrow> bool \<Rightarrow> state \<Rightarrow> state option" where
  "step_Create cfg i ok s =
     (case at_pc s i of
        Some (PCreate start) \<Rightarrow>
          if ok
          then Some (set_pc i (PRun start)
                  (s\<lparr>fs := (fs s)(path_of cfg (module_of s i) \<mapsto> []),
                     console := console s @ [RunningModule (module_of s i)]\<rparr>))
          else Some (set_pc i PDelete
                  (s\<lparr>console := console s @ [ErrCreateOutput (module_of s i)]\<rparr>))
      | _ \<Rightarrow> None)"

text \<open>
  \<^verbatim>\<open>cmd.Run()\<close> returns: the command has been started with the output file as its
  standard output, and the file at the path of the job holds what the environment says;
  the outcome is printed, with \<^verbatim>\<open>time.Since(start)\<close> on success.
\<close>

definition step_Run :: "config \<Rightarrow> nat \<Rightarrow> string \<Rightarrow> bool \<Rightarrow> state \<Rightarrow> state option" where
  "step_Run cfg i out ok s =
     (case at_pc s i of
        Some (PRun start) \<Rightarrow>
          Some (set_pc i PDelete
                  (s\<lparr>invocations := invocations s @ [command cfg (module_of s i)],
                     fs := (fs s)(path_of cfg (module_of s i) \<mapsto> out),
                     console := console s @
                       [if ok then Completed (module_of s i) (clock s - start)
                        else ErrRunning (module_of s i)]\<rparr>))
      | _ \<Rightarrow> None)"

text \<open>The deferred \<^verbatim>\<open>runningModules.Delete(module)\<close>\<close>

definition step_Delete :: "nat \<Rightarrow> state \<Rightarrow> state option" where
  "step_Delete i s =
     (case at_pc s i of
        Some PDelete \<Rightarrow>
          Some (set_pc i PDone
                  (s\<lparr>runningModules := AList.delete (module_of s i) (runningModules s)\<rparr>))
      | _ \<Rightarrow> None)"

text \<open>The deferred \<^verbatim>\<open>wg.Done()\<close>: a counter that would go negative panics.\<close>

definition step_Done :: "nat \<Rightarrow> state \<Rightarrow> state option" where
  "step_Done i s =
     (case at_pc s i of
        Some PDone \<Rightarrow>
          if wg s = 0 then Some (s\<lparr>panicked := True\<rparr>)
          else Some (set_pc i PRelease (s\<lparr>wg := wg s - 1\<rparr>))
      | _ \<Rightarrow> None)"

text \<open>\<^verbatim>\<open><-sem\<close>: blocks while the channel is empty.\<close>

definition step_Release :: "nat \<Rightarrow> state \<Rightarrow> state option" where
  "step_Release i s =
     (case at_pc s i of
        Some PRelease \<Rightarrow>
          if sem s = 0 then None
          else Some (set_pc i PFinished (s\<lparr>sem := sem s - 1\<rparr>))
      | _ \<Rightarrow> None)"

text \<open>
  \<^verbatim>\<open>_, err := reader.ReadByte()\<close>: with no error the header is printed and \<^verbatim>\<open>Range\<close>
  starts, owing a visit to every key the map holds now; with an error the loop reads
  again.
\<close>

definition step_KeyPress :: "bool \<Rightarrow> state \<Rightarrow> state option" where
  "step_KeyPress ok s =
     (case mon s of
        MonWait \<Rightarrow>
          if ok
          then Some (s\<lparr>console := console s @ [MonHeader],
                       mon := MonRange (map fst (runningModules s)) []\<rparr>)
          else Some s
      | _ \<Rightarrow> None)"

text \<open>
  \<^verbatim>\<open>Range\<close> reaches key \<open>k\<close>, any key its callback has not been called on, whether the
  map held it when \<^verbatim>\<open>Range\<close> started or it was stored since: when the key has a value
  the callback prints the module and \<^verbatim>\<open>time.Since(start)\<close>; a key with no value is
  skipped.
\<close>

definition step_Visit :: "string \<Rightarrow> state \<Rightarrow> state option" where
  "step_Visit k s =
     (case mon s of
        MonRange pending seen \<Rightarrow>
          if k \<notin> fst ` set seen
          then (case map_of (runningModules s) k of
                  Some start \<Rightarrow>
                    Some (s\<lparr>console := console s @ [MonModule k (clock s - start)],
                            mon := MonRange (removeAll k pending) (seen @ [(k, start)])\<rparr>)
                | None \<Rightarrow> Some (s\<lparr>mon := MonRange (removeAll k pending) seen\<rparr>))
          else None
      | _ \<Rightarrow> None)"

text \<open>
  \<^verbatim>\<open>Range\<close> returns, once it has reached every key the map held when it started: the
  footer is printed and the monitor reads again.
\<close>

definition step_RangeEnd :: "state \<Rightarrow> state option" where
  "step_RangeEnd s =
     (case mon s of
        MonRange [] seen \<Rightarrow> Some (s\<lparr>console := console s @ [MonFooter], mon := MonWait\<rparr>)
      | _ \<Rightarrow> None)"

text \<open>
  One step of the program. Nothing runs after a panic or after \<^verbatim>\<open>main\<close> has returned
  (the process is gone); \<open>None\<close> is an event that cannot happen in the state.
\<close>

definition step :: "config \<Rightarrow> event \<Rightarrow> state \<Rightarrow> state option" where
  "step cfg ev s =
     (if panicked s \<or> mainpc s = MExited then None
      else case ev of
        Tick \<Rightarrow> Some (s\<lparr>clock := clock s + 1\<rparr>)
      | Acquire \<Rightarrow> step_Acquire cfg s
      | AddWg \<Rightarrow> step_AddWg s
      | Go \<Rightarrow> step_Go cfg s
      | Wait \<Rightarrow> step_Wait cfg s
      | Store i \<Rightarrow> step_Store i s
      | Create i ok \<Rightarrow> step_Create cfg i ok s
      | Run i out ok \<Rightarrow> step_Run cfg i out ok s
      | Delete i \<Rightarrow> step_Delete i s
      | Done i \<Rightarrow> step_Done i s
      | Release i \<Rightarrow> step_Release i s
      | KeyPress ok \<Rightarrow> step_KeyPress ok s
      | Visit k \<Rightarrow> step_Visit k s
      | RangeEnd \<Rightarrow> step_RangeEnd s)"

text \<open>A run: the events of a schedule, one after the other.\<close>

fun exec :: "config \<Rightarrow> event list \<Rightarrow> state \<Rightarrow> state option" where
  "exec cfg [] s = Some s"
| "exec cfg (e # es) s = (case step cfg e s of None \<Rightarrow> None | Some s' \<Rightarrow> exec cfg es s')"

text \<open>The registry after every prefix of a schedule (the instants of a run).\<close>

fun registries :: "config \<Rightarrow> event list \<Rightarrow> state \<Rightarrow> (string \<times> nat) list list" where
  "registries cfg [] s = [runningModules s]"
| "registries cfg (e # es) s =
     runningModules s # (case step cfg e s of None \<Rightarrow> [] | Some s' \<Rightarrow> registries cfg es s')"

text \<open>
  Goroutines that hold a token of \<open>sem\<close>, that are inside \<^verbatim>\<open>runModule\<close> (its
  \<^verbatim>\<open>wg.Done\<close> has not run), and that are between their \<^verbatim>\<open>Store\<close> and their \<^verbatim>\<open>Delete\<close>.
\<close>

definition holding :: "goroutine \<Rightarrow> bool" where
  "holding g = (gpc g \<noteq> PFinished)"

definition executing :: "goroutine \<Rightarrow> bool" where
  "executing g = (gpc g \<noteq> PFinished \<and> gpc g \<noteq> PRelease)"

definition registered :: "goroutine \<Rightarrow> bool" where
  "registered g = (case gpc g of PCreate _ \<Rightarrow> True | PRun _ \<Rightarrow> True | PDelete \<Rightarrow> True | _ \<Rightarrow> False)"

subsection \<open>Invariants of the dispatcher\<close>

text \<open>
  The counters agree with the control points: the goroutines started are the first
  modules of the list, in order; the tokens in \<open>sem\<close> are those of the goroutines that
  have not received from it, plus the one \<^verbatim>\<open>main\<close> has sent for the goroutine it is
  about to start; the wait group counts the goroutines inside \<^verbatim>\<open>runModule\<close>, plus the
  one \<^verbatim>\<open>main\<close> has added; and nothing has panicked.
\<close>

definition count_ok :: "config \<Rightarrow> state \<Rightarrow> bool" where
  "count_ok cfg s \<longleftrightarrow>
     \<not> panicked s \<and>
     map gmodule (gos s) = take (length (gos s)) (modules cfg) \<and>
     length (gos s) \<le> length (modules cfg) \<and>
     (case mainpc s of
        MLoop i \<Rightarrow> length (gos s) = i
      | MAdd i \<Rightarrow> length (gos s) = i \<and> i < length (modules cfg)
      | MGo i \<Rightarrow> length (gos s) = i \<and> i < length (modules cfg)
      | MExited \<Rightarrow> length (gos s) = length (modules cfg) \<and> wg s = 0) \<and>
     sem s = length (filter holding (gos s)) +
        (case mainpc s of MAdd _ \<Rightarrow> 1 | MGo _ \<Rightarrow> 1 | _ \<Rightarrow> 0) \<and>
     sem s \<le> capacity cfg \<and>
     wg s = length (filter executing (gos s)) + (case mainpc s of MGo _ \<Rightarrow> 1 | _ \<Rightarrow> 0)"

text \<open>
  The tokens over a whole run: the sends on \<open>sem\<close> are one per goroutine started (plus
  the one for the goroutine \<^verbatim>\<open>main\<close> is starting), the receives one per goroutine
  finished.
\<close>

definition is_Release :: "event \<Rightarrow> bool" where
  "is_Release e = (case e of Release _ \<Rightarrow> True | _ \<Rightarrow> False)"

definition tokens_ok :: "event list \<Rightarrow> state \<Rightarrow> bool" where
  "tokens_ok evs s \<longleftrightarrow>
     length (filter (\<lambda>e. e = Acquire) evs) =
       length (gos s) + (case mainpc s of MAdd _ \<Rightarrow> 1 | MGo _ \<Rightarrow> 1 | _ \<Rightarrow> 0) \<and>
     length (filter is_Release evs) = length (filter (\<lambda>g. gpc g = PFinished) (gos s))"

text \<open>
  The registry holds each key once, and every key is the module of a goroutine that is
  between its \<^verbatim>\<open>Store\<close> and its \<^verbatim>\<open>Delete\<close>.
\<close>

definition reg_ok :: "state \<Rightarrow> bool" where
  "reg_ok s \<longleftrightarrow>
     distinct (map fst (runningModules s)) \<and>
     (\<forall>k. k \<in> fst ` set (runningModules s) \<longrightarrow>
        (\<exists>j < length (gos s). registered (gos s ! j) \<and> gmodule (gos s ! j) = k))"

text \<open>
  What a control point says about the past of a run: a goroutine beyond its first
  control point has done its \<^verbatim>\<open>Store\<close>, one waiting for \<^verbatim>\<open>cmd.Run\<close> has created its
  output file, and one beyond its deferred \<^verbatim>\<open>Delete\<close> has done it.
\<close>

definition past :: "nat \<Rightarrow> pc \<Rightarrow> event list \<Rightarrow> bool" where
  "past i p evs =
     (case p of
        PStart \<Rightarrow> True
      | PCreate t \<Rightarrow> Store i \<in> set evs
      | PRun t \<Rightarrow> Store i \<in> set evs \<and> Create i True \<in> set evs
      | PDelete \<Rightarrow> Store i \<in> set evs
      | _ \<Rightarrow> Store i \<in> set evs \<and> Delete i \<in> set evs)"

definition hist_ok :: "event list \<Rightarrow> state \<Rightarrow> bool" where
  "hist_ok evs s \<longleftrightarrow> (\<forall>i. i < length (gos s) \<longrightarrow> past i (gpc (gos s ! i)) evs)"

subsection \<open>The start of \<^verbatim>\<open>main\<close> (lines 94-135)\<close>

text \<open>
  What the program finds: the values of the four flags, whether \<^verbatim>\<open>os.MkdirAll\<close>
  succeeds, the files (\<^verbatim>\<open>os.Open\<close> fails on a path with no content), the number of
  CPUs and the path separator.
\<close>

record env =
  flag_p :: string
  flag_i :: string
  flag_m :: string
  flag_o :: string
  mkdirAll_ok :: bool
  files :: "string \<Rightarrow> string option"
  NumCPU :: int
  separator :: char

text \<open>
  \<^verbatim>\<open>main\<close> up to the dispatch loop: either \<^verbatim>\<open>os.Exit(1)\<close> after one message, or the
  configuration of the loop.
\<close>

definition main_start :: "env \<Rightarrow> (line list \<times> int) + config" where
  "main_start e =
     (if flag_p e = [] \<or> flag_i e = [] \<or> flag_m e = [] \<or> flag_o e = []
      then Inl ([AllFlagsRequired], 1)
      else if \<not> mkdirAll_ok e then Inl ([ErrCreateOutputDir], 1)
      else case files e (flag_m e) of
        None \<Rightarrow> Inl ([ErrReadingModules], 1)
      | Some content \<Rightarrow>
          (case scan_lines content of
             (toks, err) \<Rightarrow>
               if err then Inl ([ErrScanningModules], 1)
               else Inr \<lparr>volatilityPath = flag_p e, memoryImage = flag_i e,
                         outputDir = flag_o e, modules = collect_modules [] toks,
                         capacity = nat (numGoroutines (NumCPU e)),
                         PathSeparator = separator e\<rparr>))"

text \<open>
  The whole program under a schedule: a process that has exited takes no step; otherwise
  the schedule runs from the initial state of the loop.
\<close>

datatype outcome = Exited int "line list" | Dispatching state

definition program :: "env \<Rightarrow> event list \<Rightarrow> outcome option" where
  "program e evs =
     (case main_start e of
        Inl (out, code) \<Rightarrow> if evs = [] then Some (Exited code out) else None
      | Inr cfg \<Rightarrow> map_option Dispatching (exec cfg evs (init cfg (files e))))"



text \<open>
  The rest of job \<open>i\<close> from the control point \<open>p\<close>, up to its receive from \<open>sem\<close>, when
  \<^verbatim>\<open>os.Create\<close> answers \<open>okc\<close> and \<^verbatim>\<open>cmd.Run\<close> answers \<open>okr\<close>.
\<close>

definition finish :: "pc \<Rightarrow> nat \<Rightarrow> bool \<Rightarrow> bool \<Rightarrow> event list" where
  "finish p i okc okr =
     (case p of
        PStart \<Rightarrow>
          Store i # Create i okc # (if okc then [Run i [] okr] else []) @
          [Delete i, Done i, Release i]
      | PCreate t \<Rightarrow>
          Create i okc # (if okc then [Run i [] okr] else []) @ [Delete i, Done i, Release i]
      | PRun t \<Rightarrow> [Run i [] okr, Delete i, Done i, Release i]
      | PDelete \<Rightarrow> [Delete i, Done i, Release i]
      | PDone \<Rightarrow> [Done i, Release i]
      | PRelease \<Rightarrow> [Release i]
      | PFinished \<Rightarrow> [])"

subsection \<open>Enumerations of the monitor\<close>





subsection \<open>Example runs\<close>

text \<open>
  The scenario of the specification: three modules and a limit of two. In
  \<open>example_run\<close> the second job cannot create its output file, the third one's tool
  fails, and \<^verbatim>\<open>main\<close> returns while two goroutines have not yet received from
  \<open>sem\<close>. \<open>example_busy\<close> stops when two jobs are registered.
\<close>

definition example_cfg :: config where
  "example_cfg =
     \<lparr>volatilityPath = ''vol'', memoryImage = ''/cases/mem.raw'', outputDir = ''out'',
      modules = [''pslist'', ''pstree'', ''netscan''], capacity = 2,
      PathSeparator = CHR ''/''\<rparr>"

definition example_run :: "event list" where
  "example_run =
     [Acquire, AddWg, Go, Store 0, Acquire, AddWg, Go, Tick, Store 1, Create 0 True,
      Create 1 False, Tick, Run 0 ''pid'' True, Delete 1, Delete 0, Done 0, Done 1, Release 1,
      Acquire, AddWg, Go, Store 2, Create 2 True, Tick, Run 2 [] False, Delete 2, Done 2,
      Wait]"

definition example_busy :: "event list" where
  "example_busy = [Acquire, AddWg, Go, Store 0, Acquire, AddWg, Go, Tick, Store 1]"

text \<open>
  \<open>example_run\<close> up to the moment the first two jobs have returned from \<^verbatim>\<open>runModule\<close>,
  one after a success and one after its file could not be created.
\<close>

definition example_returned :: "event list" where
  "example_returned =
     [Acquire, AddWg, Go, Store 0, Acquire, AddWg, Go, Tick, Store 1, Create 0 True,
      Create 1 False, Tick, Run 0 ''pid'' True, Delete 1, Delete 0, Done 0, Done 1]"

text \<open>
  The first job alone: up to the return of \<^verbatim>\<open>cmd.Run\<close>, and up to \<^verbatim>\<open>os.Create\<close>.
\<close>

definition example_invoke :: "event list" where
  "example_invoke = [Acquire, AddWg, Go, Tick, Store 0, Create 0 True, Tick, Tick]"

definition example_abort :: "event list" where
  "example_abort = [Acquire, AddWg, Go, Tick, Store 0, Tick]"


text \<open>
  A list that names one module twice, with a limit of two: both jobs are running when
  the first returns from \<^verbatim>\<open>cmd.Run\<close>.
\<close>

definition dup_cfg :: config where
  "dup_cfg =
     \<lparr>volatilityPath = ''vol'', memoryImage = ''mem.raw'', outputDir = ''out'',
      modules = [''pslist'', ''pslist''], capacity = 2, PathSeparator = CHR ''/''\<rparr>"

definition dup_overlap :: "event list" where
  "dup_overlap =
     [Acquire, AddWg, Go, Store 0, Acquire, AddWg, Go, Tick, Store 1, Create 0 True,
      Create 1 True, Run 0 [] True]"

definition dup_rest :: "event list" where
  "dup_rest = [Done 0, Tick, KeyPress True]"





text \<open>
  An environment in which the output directory cannot be created; one with a job list
  of four lines, two of them ended by a carriage return and a newline, one of these
  blank, and the last with no newline; and one whose job list is a single line of
  \<open>65536\<close> bytes.
\<close>

definition env_nodir :: env where
  "env_nodir =
     \<lparr>flag_p = ''vol'', flag_i = ''mem.raw'', flag_m = ''modules.txt'', flag_o = ''/proc/out'',
      mkdirAll_ok = False, files = [''modules.txt'' \<mapsto> ''pslist''], NumCPU = 4,
      separator = CHR ''/''\<rparr>"




section \<open>Theorems\<close>

subsection \<open>Runs and the invariants\<close>

lemma exec_append:
  "exec cfg (xs @ ys) s = (case exec cfg xs s of None \<Rightarrow> None | Some s' \<Rightarrow> exec cfg ys s')"
  by (induction xs arbitrary: s) (auto split: option.splits)

lemma filter_update_count:
  "i < length xs \<Longrightarrow>
   length (filter P (xs[i := y])) + (if P (xs ! i) then 1 else 0) =
   length (filter P xs) + (if P y then 1 else 0)"
proof (induction xs arbitrary: i)
  case Nil
  then show ?case by simp
next
  case (Cons x xs)
  then show ?case by (cases i) auto
qed

lemma count_ok_init: "count_ok cfg (init cfg fs0)"
  by (simp add: count_ok_def init_def)

lemma reg_ok_init: "reg_ok (init cfg fs0)"
  by (simp add: reg_ok_def init_def)


lemma count_ok_Acquire: "count_ok cfg s \<Longrightarrow> step_Acquire cfg s = Some s' \<Longrightarrow> count_ok cfg s'"
  by (auto simp: count_ok_def step_Acquire_def split: mpc.splits if_splits)

lemma count_ok_AddWg: "count_ok cfg s \<Longrightarrow> step_AddWg s = Some s' \<Longrightarrow> count_ok cfg s'"
  by (auto simp: count_ok_def step_AddWg_def split: mpc.splits if_splits)

lemma count_ok_Go: "count_ok cfg s \<Longrightarrow> step_Go cfg s = Some s' \<Longrightarrow> count_ok cfg s'"
  by (auto simp: count_ok_def step_Go_def holding_def executing_def take_Suc_conv_app_nth
      split: mpc.splits if_splits)

lemma count_ok_Wait: "count_ok cfg s \<Longrightarrow> step_Wait cfg s = Some s' \<Longrightarrow> count_ok cfg s'"
  by (auto simp: count_ok_def step_Wait_def split: mpc.splits if_splits)

lemma at_pc_Some: "at_pc s i = Some p \<longleftrightarrow> i < length (gos s) \<and> gpc (gos s ! i) = p"
  by (auto simp: at_pc_def)

lemma count_ok_move:
  assumes c: "count_ok cfg s" and i: "i < length (gos s)"
    and h: "holding (gos s ! i) = holding ((gos s ! i)\<lparr>gpc := p\<rparr>)"
    and e: "executing (gos s ! i) = executing ((gos s ! i)\<lparr>gpc := p\<rparr>)"
    and s': "gos s' = (gos s)[i := (gos s ! i)\<lparr>gpc := p\<rparr>]"
       "sem s' = sem s" "wg s' = wg s" "mainpc s' = mainpc s" "panicked s' = panicked s"
  shows "count_ok cfg s'"
proof -
  have 1: "length (filter holding (gos s')) = length (filter holding (gos s))"
    using filter_update_count [OF i, of holding "(gos s ! i)\<lparr>gpc := p\<rparr>"] h s'(1) by simp
  have 2: "length (filter executing (gos s')) = length (filter executing (gos s))"
    using filter_update_count [OF i, of executing "(gos s ! i)\<lparr>gpc := p\<rparr>"] e s'(1) by simp
  have 3: "map gmodule (gos s') = map gmodule (gos s)"
    using i by (simp add: s'(1) map_update list_update_same_conv)
  have 4: "length (gos s') = length (gos s)"
    by (simp add: s'(1))
  show ?thesis
    using c unfolding count_ok_def 1 2 3 4 s'(2-) by simp
qed

lemma count_ok_Store: "count_ok cfg s \<Longrightarrow> step_Store i s = Some s' \<Longrightarrow> count_ok cfg s'"
  by (erule count_ok_move [where i = i and p = "PCreate (clock s)"])
     (auto simp: step_Store_def at_pc_Some set_pc_def holding_def executing_def
      split: option.splits pc.splits)

lemma count_ok_Create: "count_ok cfg s \<Longrightarrow> step_Create cfg i ok s = Some s' \<Longrightarrow> count_ok cfg s'"
  apply (cases ok)
   apply (auto simp: step_Create_def at_pc_Some split: option.splits pc.splits)
   apply (erule count_ok_move [where i = i]; auto simp: set_pc_def holding_def executing_def)+
  done

lemma count_ok_Run: "count_ok cfg s \<Longrightarrow> step_Run cfg i out ok s = Some s' \<Longrightarrow> count_ok cfg s'"
  apply (auto simp: step_Run_def at_pc_Some split: option.splits pc.splits)
   apply (erule count_ok_move [where i = i]; auto simp: set_pc_def holding_def executing_def)+
  done

lemma count_ok_Delete: "count_ok cfg s \<Longrightarrow> step_Delete i s = Some s' \<Longrightarrow> count_ok cfg s'"
  apply (auto simp: step_Delete_def at_pc_Some split: option.splits pc.splits)
   apply (erule count_ok_move [where i = i]; auto simp: set_pc_def holding_def executing_def)+
  done


lemma filter_nth_pos: "i < length xs \<Longrightarrow> P (xs ! i) \<Longrightarrow> 0 < length (filter P xs)"
  by (metis filter_empty_conv length_greater_0_conv nth_mem)

lemma count_ok_Done: "count_ok cfg s \<Longrightarrow> step_Done i s = Some s' \<Longrightarrow> count_ok cfg s'"
proof -
  assume c: "count_ok cfg s" and st: "step_Done i s = Some s'"
  from st have i: "i < length (gos s)" and p: "gpc (gos s ! i) = PDone"
    by (auto simp: step_Done_def at_pc_Some split: option.splits pc.splits)
  have ex: "executing (gos s ! i)" using p by (simp add: executing_def)
  have pos: "0 < length (filter executing (gos s))" using filter_nth_pos [of i "gos s" executing] i ex by simp
  with c have w: "wg s \<noteq> 0" by (simp add: count_ok_def)
  with st i p have s': "s' = set_pc i PRelease (s\<lparr>wg := wg s - 1\<rparr>)"
    by (simp add: step_Done_def at_pc_def)
  have 1: "length (filter holding (gos s')) = length (filter holding (gos s))"
    using filter_update_count [OF i, of holding "(gos s ! i)\<lparr>gpc := PRelease\<rparr>"] p
    by (simp add: s' set_pc_def holding_def)
  have 2: "length (filter executing (gos s')) + 1 = length (filter executing (gos s))"
    using filter_update_count [OF i, of executing "(gos s ! i)\<lparr>gpc := PRelease\<rparr>"] p
    by (simp add: s' set_pc_def executing_def)
  have 3: "map gmodule (gos s') = map gmodule (gos s)"
    using i by (simp add: s' set_pc_def map_update list_update_same_conv)
  have 4: "length (gos s') = length (gos s)" by (simp add: s' set_pc_def)
  have 5: "sem s' = sem s" "wg s' = wg s - 1" "mainpc s' = mainpc s" "panicked s' = panicked s"
    by (simp_all add: s' set_pc_def)
  show ?thesis
    using c 2 w unfolding count_ok_def 1 3 4 5 by (auto split: mpc.splits)
qed

lemma count_ok_Release: "count_ok cfg s \<Longrightarrow> step_Release i s = Some s' \<Longrightarrow> count_ok cfg s'"
proof -
  assume c: "count_ok cfg s" and st: "step_Release i s = Some s'"
  from st have i: "i < length (gos s)" and p: "gpc (gos s ! i) = PRelease"
    by (auto simp: step_Release_def at_pc_Some split: option.splits pc.splits)
  from st i p have w: "sem s \<noteq> 0" and s': "s' = set_pc i PFinished (s\<lparr>sem := sem s - 1\<rparr>)"
    by (auto simp: step_Release_def at_pc_def split: if_splits)
  have 1: "length (filter holding (gos s')) + 1 = length (filter holding (gos s))"
    using filter_update_count [OF i, of holding "(gos s ! i)\<lparr>gpc := PFinished\<rparr>"] p
    by (simp add: s' set_pc_def holding_def)
  have 2: "length (filter executing (gos s')) = length (filter executing (gos s))"
    using filter_update_count [OF i, of executing "(gos s ! i)\<lparr>gpc := PFinished\<rparr>"] p
    by (simp add: s' set_pc_def executing_def)
  have 3: "map gmodule (gos s') = map gmodule (gos s)"
    using i by (simp add: s' set_pc_def map_update list_update_same_conv)
  have 4: "length (gos s') = length (gos s)" by (simp add: s' set_pc_def)
  have 5: "sem s' = sem s - 1" "wg s' = wg s" "mainpc s' = mainpc s" "panicked s' = panicked s"
    by (simp_all add: s' set_pc_def)
  show ?thesis
    using c 1 w unfolding count_ok_def 2 3 4 5 by (auto split: mpc.splits)
qed

lemma count_ok_same:
  assumes "count_ok cfg s" and "gos s' = gos s" and "sem s' = sem s" and "wg s' = wg s"
    and "mainpc s' = mainpc s" and "panicked s' = panicked s"
  shows "count_ok cfg s'"
  using assms(1) unfolding count_ok_def assms(2-) .

lemma count_ok_KeyPress: "count_ok cfg s \<Longrightarrow> step_KeyPress ok s = Some s' \<Longrightarrow> count_ok cfg s'"
  by (erule count_ok_same) (auto simp: step_KeyPress_def split: monitor.splits if_splits)

lemma count_ok_Visit: "count_ok cfg s \<Longrightarrow> step_Visit k s = Some s' \<Longrightarrow> count_ok cfg s'"
  by (erule count_ok_same)
     (auto simp: step_Visit_def split: monitor.splits if_splits option.splits)

lemma count_ok_RangeEnd: "count_ok cfg s \<Longrightarrow> step_RangeEnd s = Some s' \<Longrightarrow> count_ok cfg s'"
  by (erule count_ok_same) (auto simp: step_RangeEnd_def split: monitor.splits list.splits)

lemma count_ok_Tick: "count_ok cfg s \<Longrightarrow> count_ok cfg (s\<lparr>clock := clock s + 1\<rparr>)"
  by (erule count_ok_same) simp_all

lemma step_cases:
  assumes "step cfg ev s = Some s'"
  obtains
    (Tick) "ev = Tick" "s' = s\<lparr>clock := clock s + 1\<rparr>"
  | (Acquire) "ev = Acquire" "step_Acquire cfg s = Some s'"
  | (AddWg) "ev = AddWg" "step_AddWg s = Some s'"
  | (Go) "ev = Go" "step_Go cfg s = Some s'"
  | (Wait) "ev = Wait" "step_Wait cfg s = Some s'"
  | (Store) i where "ev = Store i" "step_Store i s = Some s'"
  | (Create) i ok where "ev = Create i ok" "step_Create cfg i ok s = Some s'"
  | (Run) i out ok where "ev = Run i out ok" "step_Run cfg i out ok s = Some s'"
  | (Delete) i where "ev = Delete i" "step_Delete i s = Some s'"
  | (Done) i where "ev = Done i" "step_Done i s = Some s'"
  | (Release) i where "ev = Release i" "step_Release i s = Some s'"
  | (KeyPress) ok where "ev = KeyPress ok" "step_KeyPress ok s = Some s'"
  | (Visit) k where "ev = Visit k" "step_Visit k s = Some s'"
  | (RangeEnd) "ev = RangeEnd" "step_RangeEnd s = Some s'"
  using assms unfolding step_def by (cases ev) (simp_all split: if_splits)

lemma count_ok_step:
  assumes c: "count_ok cfg s" and st: "step cfg ev s = Some s'"
  shows "count_ok cfg s'"
  using st
proof (cases rule: step_cases)
  case Tick
  then show ?thesis using c count_ok_Tick [of cfg s] by simp
next
  case Acquire
  then show ?thesis using c by (rule_tac count_ok_Acquire)
next
  case AddWg
  then show ?thesis using c by (rule_tac count_ok_AddWg)
next
  case Go
  then show ?thesis using c by (rule_tac count_ok_Go)
next
  case Wait
  then show ?thesis using c by (rule_tac count_ok_Wait)
next
  case (Store i)
  then show ?thesis using c by (rule_tac count_ok_Store)
next
  case (Create i ok)
  then show ?thesis using c by (rule_tac count_ok_Create)
next
  case (Run i out ok)
  then show ?thesis using c by (rule_tac count_ok_Run)
next
  case (Delete i)
  then show ?thesis using c by (rule_tac count_ok_Delete)
next
  case (Done i)
  then show ?thesis using c by (rule_tac count_ok_Done)
next
  case (Release i)
  then show ?thesis using c by (rule_tac count_ok_Release)
next
  case (KeyPress ok)
  then show ?thesis using c by (rule_tac count_ok_KeyPress)
next
  case (Visit k)
  then show ?thesis using c by (rule_tac count_ok_Visit)
next
  case RangeEnd
  then show ?thesis using c by (rule_tac count_ok_RangeEnd)
qed

lemma count_ok_exec: "count_ok cfg s \<Longrightarrow> exec cfg evs s = Some s' \<Longrightarrow> count_ok cfg s'"
proof (induction evs arbitrary: s)
  case Nil
  then show ?case by simp
next
  case (Cons e es)
  from Cons.prems(2) obtain s1 where 1: "step cfg e s = Some s1" and 2: "exec cfg es s1 = Some s'"
    by (auto split: option.splits)
  from Cons.IH [OF count_ok_step [OF Cons.prems(1) 1] 2] show ?case .
qed

lemma reg_ok_same:
  assumes "reg_ok s" and "runningModules s' = runningModules s" and "gos s' = gos s"
  shows "reg_ok s'"
  using assms(1) unfolding reg_ok_def assms(2-) .

lemma reg_ok_Go: "reg_ok s \<Longrightarrow> step_Go cfg s = Some s' \<Longrightarrow> reg_ok s'"
  apply (clarsimp simp: reg_ok_def step_Go_def split: mpc.splits if_splits)
  apply (drule spec, drule mp, erule imageI)
  apply (clarsimp simp: nth_append)
  apply (rule_tac x = j in exI)
  apply simp
  done


lemma reg_ok_upd:
  assumes r: "reg_ok s" and i: "i < length (gos s)"
    and g: "gos s' = (gos s)[i := (gos s ! i)\<lparr>gpc := p\<rparr>]"
    and d: "distinct (map fst (runningModules s'))"
    and a: "\<And>k. k \<in> fst ` set (runningModules s') \<Longrightarrow>
              k \<noteq> gmodule (gos s ! i) \<Longrightarrow> k \<in> fst ` set (runningModules s)"
    and b: "gmodule (gos s ! i) \<in> fst ` set (runningModules s') \<Longrightarrow>
              registered ((gos s ! i)\<lparr>gpc := p\<rparr>) \<or>
              (gmodule (gos s ! i) \<in> fst ` set (runningModules s) \<and> \<not> registered (gos s ! i))"
  shows "reg_ok s'"
proof -
  have cover: "\<exists>j < length (gos s'). registered (gos s' ! j) \<and> gmodule (gos s' ! j) = k"
    if k: "k \<in> fst ` set (runningModules s')" for k
  proof (cases "k = gmodule (gos s ! i) \<and> registered ((gos s ! i)\<lparr>gpc := p\<rparr>)")
    case True
    then show ?thesis using i by (intro exI [of _ i]) (simp add: g)
  next
    case False
    have old: "k \<in> fst ` set (runningModules s)"
    proof (cases "k = gmodule (gos s ! i)")
      case True
      with b k False show ?thesis by metis
    next
      case False
      with a [OF k] show ?thesis by metis
    qed
    have ni: "\<not> registered (gos s ! i)" if "k = gmodule (gos s ! i)"
      using b k False that by metis
    from r old obtain j where j: "j < length (gos s)" "registered (gos s ! j)" "gmodule (gos s ! j) = k"
      unfolding reg_ok_def by blast
    have "j \<noteq> i" using j ni by auto
    then show ?thesis using j by (intro exI [of _ j]) (simp add: g)
  qed
  show ?thesis unfolding reg_ok_def using d cover by blast
qed

lemma keys_delete: "fst ` set (AList.delete k al) = fst ` set al - {k}"
  using AList.delete_keys [of k al] by (metis list.set_map set_removeAll)

lemma reg_ok_Store:
  assumes r: "reg_ok s" and st: "step_Store i s = Some s'"
  shows "reg_ok s'"
proof -
  from st have i: "i < length (gos s)"
    and s': "s' = set_pc i (PCreate (clock s))
       (s\<lparr>runningModules := AList.update (module_of s i) (clock s) (runningModules s)\<rparr>)"
    by (auto simp: step_Store_def at_pc_Some split: option.splits pc.splits)
  from r have d: "distinct (map fst (runningModules s))" by (simp add: reg_ok_def)
  show ?thesis
    by (rule reg_ok_upd [OF r i, where p = "PCreate (clock s)"])
       (use d in \<open>auto simp: s' set_pc_def module_of_def registered_def
          AList.distinct_update AList.dom_update\<close>)
qed

lemma reg_ok_Create:
  assumes r: "reg_ok s" and st: "step_Create cfg i ok s = Some s'"
  shows "reg_ok s'"
proof -
  from st obtain start where i: "i < length (gos s)" and p: "gpc (gos s ! i) = PCreate start"
    by (auto simp: step_Create_def at_pc_Some split: option.splits pc.splits)
  from r have d: "distinct (map fst (runningModules s))" by (simp add: reg_ok_def)
  show ?thesis
  proof (cases ok)
    case True
    with st i p have s': "gos s' = (gos s)[i := (gos s ! i)\<lparr>gpc := PRun start\<rparr>]"
      "runningModules s' = runningModules s"
      by (auto simp: step_Create_def at_pc_def set_pc_def)
    show ?thesis
      by (rule reg_ok_upd [OF r i s'(1)]) (use d in \<open>auto simp: s'(2) registered_def\<close>)
  next
    case False
    with st i p have s': "gos s' = (gos s)[i := (gos s ! i)\<lparr>gpc := PDelete\<rparr>]"
      "runningModules s' = runningModules s"
      by (auto simp: step_Create_def at_pc_def set_pc_def)
    show ?thesis
      by (rule reg_ok_upd [OF r i s'(1)]) (use d in \<open>auto simp: s'(2) registered_def\<close>)
  qed
qed

lemma reg_ok_Run:
  assumes r: "reg_ok s" and st: "step_Run cfg i out ok s = Some s'"
  shows "reg_ok s'"
proof -
  from st have i: "i < length (gos s)"
    and s': "gos s' = (gos s)[i := (gos s ! i)\<lparr>gpc := PDelete\<rparr>]"
      "runningModules s' = runningModules s"
    by (auto simp: step_Run_def at_pc_Some set_pc_def split: option.splits pc.splits)
  from r have d: "distinct (map fst (runningModules s))" by (simp add: reg_ok_def)
  show ?thesis
    by (rule reg_ok_upd [OF r i s'(1)]) (use d in \<open>auto simp: s'(2) registered_def\<close>)
qed

lemma reg_ok_Delete:
  assumes r: "reg_ok s" and st: "step_Delete i s = Some s'"
  shows "reg_ok s'"
proof -
  from st have i: "i < length (gos s)"
    and s': "gos s' = (gos s)[i := (gos s ! i)\<lparr>gpc := PDone\<rparr>]"
      "runningModules s' = AList.delete (gmodule (gos s ! i)) (runningModules s)"
    by (auto simp: step_Delete_def at_pc_Some set_pc_def module_of_def
        split: option.splits pc.splits)
  from r have d: "distinct (map fst (runningModules s))" by (simp add: reg_ok_def)
  show ?thesis
    by (rule reg_ok_upd [OF r i s'(1)])
       (use d in \<open>simp_all add: s'(2) keys_delete AList.distinct_delete\<close>)
qed

lemma reg_ok_Done:
  assumes r: "reg_ok s" and st: "step_Done i s = Some s'"
  shows "reg_ok s'"
proof (cases "wg s = 0")
  case True
  with st show ?thesis
    by (intro reg_ok_same [OF r])
       (auto simp: step_Done_def split: option.splits pc.splits)
next
  case False
  with st have i: "i < length (gos s)" and p: "gpc (gos s ! i) = PDone"
    and s': "gos s' = (gos s)[i := (gos s ! i)\<lparr>gpc := PRelease\<rparr>]"
      "runningModules s' = runningModules s"
    by (auto simp: step_Done_def at_pc_Some set_pc_def split: option.splits pc.splits)
  from r have d: "distinct (map fst (runningModules s))" by (simp add: reg_ok_def)
  show ?thesis
    by (rule reg_ok_upd [OF r i s'(1)]) (use d p in \<open>auto simp: s'(2) registered_def\<close>)
qed

lemma reg_ok_Release:
  assumes r: "reg_ok s" and st: "step_Release i s = Some s'"
  shows "reg_ok s'"
proof -
  from st have i: "i < length (gos s)" and p: "gpc (gos s ! i) = PRelease"
    and s': "gos s' = (gos s)[i := (gos s ! i)\<lparr>gpc := PFinished\<rparr>]"
      "runningModules s' = runningModules s"
    by (auto simp: step_Release_def at_pc_Some set_pc_def
        split: option.splits pc.splits if_splits)
  from r have d: "distinct (map fst (runningModules s))" by (simp add: reg_ok_def)
  show ?thesis
    by (rule reg_ok_upd [OF r i s'(1)]) (use d p in \<open>auto simp: s'(2) registered_def\<close>)
qed

lemma reg_ok_step:
  assumes c: "reg_ok s" and st: "step cfg ev s = Some s'"
  shows "reg_ok s'"
  using st
proof (cases rule: step_cases)
  case Tick
  then show ?thesis using c by (intro reg_ok_same [OF c]) simp_all
next
  case Acquire
  then show ?thesis
    by (intro reg_ok_same [OF c]) (auto simp: step_Acquire_def split: mpc.splits if_splits)
next
  case AddWg
  then show ?thesis
    by (intro reg_ok_same [OF c]) (auto simp: step_AddWg_def split: mpc.splits if_splits)
next
  case Go
  then show ?thesis using c by (rule_tac reg_ok_Go)
next
  case Wait
  then show ?thesis
    by (intro reg_ok_same [OF c]) (auto simp: step_Wait_def split: mpc.splits if_splits)
next
  case (Store i)
  then show ?thesis using c by (rule_tac reg_ok_Store)
next
  case (Create i ok)
  then show ?thesis using c by (rule_tac reg_ok_Create)
next
  case (Run i out ok)
  then show ?thesis using c by (rule_tac reg_ok_Run)
next
  case (Delete i)
  then show ?thesis using c by (rule_tac reg_ok_Delete)
next
  case (Done i)
  then show ?thesis using c by (rule_tac reg_ok_Done)
next
  case (Release i)
  then show ?thesis using c by (rule_tac reg_ok_Release)
next
  case (KeyPress ok)
  then show ?thesis
    by (intro reg_ok_same [OF c]) (auto simp: step_KeyPress_def split: monitor.splits if_splits)
next
  case (Visit k)
  then show ?thesis
    by (intro reg_ok_same [OF c])
       (auto simp: step_Visit_def split: monitor.splits if_splits option.splits)
next
  case RangeEnd
  then show ?thesis
    by (intro reg_ok_same [OF c])
       (auto simp: step_RangeEnd_def split: monitor.splits list.splits)
qed

lemma reg_ok_exec: "reg_ok s \<Longrightarrow> exec cfg evs s = Some s' \<Longrightarrow> reg_ok s'"
proof (induction evs arbitrary: s)
  case Nil
  then show ?case by simp
next
  case (Cons e es)
  from Cons.prems(2) obtain s1 where 1: "step cfg e s = Some s1" and 2: "exec cfg es s1 = Some s'"
    by (auto split: option.splits)
  from Cons.IH [OF reg_ok_step [OF Cons.prems(1) 1] 2] show ?case .
qed

lemmas step_defs = step_def step_Acquire_def step_AddWg_def step_Go_def step_Wait_def
  step_Store_def step_Create_def step_Run_def step_Delete_def step_Done_def step_Release_def
  step_KeyPress_def step_Visit_def step_RangeEnd_def at_pc_def set_pc_def module_of_def
  init_def

lemma filter_le_mono:
  "(\<And>x. P x \<Longrightarrow> Q x) \<Longrightarrow> length (filter P xs) \<le> length (filter Q xs)"
  by (induction xs) auto

lemma registry_le_registered:
  assumes "reg_ok s"
  shows "length (runningModules s) \<le> length (filter registered (gos s))"
proof -
  have "fst ` set (runningModules s) \<subseteq> gmodule ` set (filter registered (gos s))"
  proof
    fix k assume "k \<in> fst ` set (runningModules s)"
    with assms obtain j where "j < length (gos s)" "registered (gos s ! j)" "gmodule (gos s ! j) = k"
      unfolding reg_ok_def by blast
    then show "k \<in> gmodule ` set (filter registered (gos s))"
      by (intro image_eqI [where x = "gos s ! j"]) simp_all
  qed
  then have "card (fst ` set (runningModules s)) \<le> card (gmodule ` set (filter registered (gos s)))"
    by (intro card_mono) simp_all
  also have "\<dots> \<le> card (set (filter registered (gos s)))"
    by (intro card_image_le) simp
  also have "\<dots> \<le> length (filter registered (gos s))"
    by (rule card_length)
  finally have "card (fst ` set (runningModules s)) \<le> length (filter registered (gos s))" .
  moreover have "card (fst ` set (runningModules s)) = length (runningModules s)"
    using assms distinct_card [of "map fst (runningModules s)"] by (simp add: reg_ok_def)
  ultimately show ?thesis by simp
qed

lemma example_run_ends:
  "\<exists>s. exec example_cfg example_run (init example_cfg Map.empty) = Some s \<and> mainpc s = MExited"
  by (simp add: example_cfg_def example_run_def step_defs)

lemma example_busy_runs:
  "\<exists>s. exec example_cfg example_busy (init example_cfg Map.empty) = Some s \<and>
       length (runningModules s) = 2"
  by (simp add: example_cfg_def example_busy_def step_defs)

subsection \<open>The history of a goroutine\<close>

lemma exec_snoc:
  "exec cfg (evs @ [e]) s0 = Some s \<longleftrightarrow>
     (\<exists>s1. exec cfg evs s0 = Some s1 \<and> step cfg e s1 = Some s)"
  by (auto simp: exec_append split: option.splits)

lemma past_snoc: "past i p evs \<Longrightarrow> past i p (evs @ [e])"
  by (auto simp: past_def split: pc.splits)

lemma hist_ok_same:
  assumes "hist_ok evs s" and "gos s' = gos s"
  shows "hist_ok (evs @ [e]) s'"
  using assms(1) unfolding hist_ok_def assms(2)
  by (auto intro: past_snoc)

lemma hist_ok_move:
  assumes h: "hist_ok evs s" and i: "i < length (gos s)"
    and g: "gos s' = (gos s)[i := (gos s ! i)\<lparr>gpc := p\<rparr>]"
    and p: "past i p (evs @ [e])"
  shows "hist_ok (evs @ [e]) s'"
  unfolding hist_ok_def
proof (intro allI impI)
  fix j assume j: "j < length (gos s')"
  show "past j (gpc (gos s' ! j)) (evs @ [e])"
  proof (cases "j = i")
    case True
    with p i show ?thesis by (simp add: g)
  next
    case False
    with h j show ?thesis by (auto simp: g hist_ok_def intro: past_snoc)
  qed
qed

lemma hist_ok_at:
  assumes "hist_ok evs s" and "i < length (gos s)" and "gpc (gos s ! i) = p"
  shows "past i p evs"
  using assms by (auto simp: hist_ok_def)

lemma hist_ok_step:
  assumes h: "hist_ok evs s" and st: "step cfg e s = Some s'"
  shows "hist_ok (evs @ [e]) s'"
  using st
proof (cases rule: step_cases)
  case Tick
  then show ?thesis by (intro hist_ok_same [OF h]) simp
next
  case Acquire
  then show ?thesis
    by (intro hist_ok_same [OF h]) (auto simp: step_Acquire_def split: mpc.splits if_splits)
next
  case AddWg
  then show ?thesis
    by (intro hist_ok_same [OF h]) (auto simp: step_AddWg_def split: mpc.splits if_splits)
next
  case Go
  then obtain g where "gos s' = gos s @ [g]" "gpc g = PStart"
    by (auto simp: step_Go_def split: mpc.splits if_splits)
  with h show ?thesis
    by (auto simp: hist_ok_def nth_append past_def intro: past_snoc [unfolded past_def])
next
  case Wait
  then show ?thesis
    by (intro hist_ok_same [OF h]) (auto simp: step_Wait_def split: mpc.splits if_splits)
next
  case (Store i)
  then have "i < length (gos s)" "gos s' = (gos s)[i := (gos s ! i)\<lparr>gpc := PCreate (clock s)\<rparr>]"
    by (auto simp: step_Store_def at_pc_Some set_pc_def split: option.splits pc.splits)
  then show ?thesis by (rule hist_ok_move [OF h]) (simp add: Store past_def)
next
  case (Create i ok)
  then obtain t where i: "i < length (gos s)" and p: "gpc (gos s ! i) = PCreate t"
    and g: "gos s' = (gos s)[i := (gos s ! i)\<lparr>gpc := (if ok then PRun t else PDelete)\<rparr>]"
    by (auto simp: step_Create_def at_pc_Some set_pc_def split: option.splits pc.splits if_splits)
  from hist_ok_at [OF h i p] show ?thesis
    by (intro hist_ok_move [OF h i g]) (simp add: Create past_def)
next
  case (Run i out ok)
  then obtain t where i: "i < length (gos s)" and p: "gpc (gos s ! i) = PRun t"
    and g: "gos s' = (gos s)[i := (gos s ! i)\<lparr>gpc := PDelete\<rparr>]"
    by (auto simp: step_Run_def at_pc_Some set_pc_def split: option.splits pc.splits if_splits)
  from hist_ok_at [OF h i p] show ?thesis
    by (intro hist_ok_move [OF h i g]) (simp add: past_def)
next
  case (Delete i)
  then have i: "i < length (gos s)" and p: "gpc (gos s ! i) = PDelete"
    and g: "gos s' = (gos s)[i := (gos s ! i)\<lparr>gpc := PDone\<rparr>]"
    by (auto simp: step_Delete_def at_pc_Some set_pc_def split: option.splits pc.splits if_splits)
  from hist_ok_at [OF h i p] show ?thesis
    by (intro hist_ok_move [OF h i g]) (simp add: Delete past_def)
next
  case (Done i)
  show ?thesis
  proof (cases "wg s = 0")
    case True
    with Done show ?thesis
      by (intro hist_ok_same [OF h]) (auto simp: step_Done_def split: option.splits pc.splits)
  next
    case False
    with Done have i: "i < length (gos s)" and p: "gpc (gos s ! i) = PDone"
      and g: "gos s' = (gos s)[i := (gos s ! i)\<lparr>gpc := PRelease\<rparr>]"
      by (auto simp: step_Done_def at_pc_Some set_pc_def split: option.splits pc.splits)
    from hist_ok_at [OF h i p] show ?thesis
      by (intro hist_ok_move [OF h i g]) (simp add: past_def)
  qed
next
  case (Release i)
  then have i: "i < length (gos s)" and p: "gpc (gos s ! i) = PRelease"
    and g: "gos s' = (gos s)[i := (gos s ! i)\<lparr>gpc := PFinished\<rparr>]"
    by (auto simp: step_Release_def at_pc_Some set_pc_def split: option.splits pc.splits if_splits)
  from hist_ok_at [OF h i p] show ?thesis
    by (intro hist_ok_move [OF h i g]) (simp add: past_def)
next
  case (KeyPress ok)
  then show ?thesis
    by (intro hist_ok_same [OF h]) (auto simp: step_KeyPress_def split: monitor.splits if_splits)
next
  case (Visit k)
  then show ?thesis
    by (intro hist_ok_same [OF h])
       (auto simp: step_Visit_def split: monitor.splits if_splits option.splits)
next
  case RangeEnd
  then show ?thesis
    by (intro hist_ok_same [OF h])
       (auto simp: step_RangeEnd_def split: monitor.splits list.splits)
qed

lemma hist_ok_exec:
  "exec cfg evs (init cfg fs0) = Some s \<Longrightarrow> hist_ok evs s"
proof (induction evs arbitrary: s rule: rev_induct)
  case Nil
  then show ?case by (auto simp: hist_ok_def init_def)
next
  case (snoc e evs)
  from snoc.prems obtain s1 where 1: "exec cfg evs (init cfg fs0) = Some s1"
    and 2: "step cfg e s1 = Some s"
    unfolding exec_snoc by blast
  from hist_ok_step [OF snoc.IH [OF 1] 2] show ?case .
qed

subsection \<open>The concurrency cap\<close>

lemma filter_update_same:
  "i < length xs \<Longrightarrow> P (xs ! i) = P y \<Longrightarrow>
   length (filter P (xs[i := y])) = length (filter P xs)"
  using filter_update_count [of i xs P y] by (auto split: if_splits)

lemma filter_update_gain:
  "i < length xs \<Longrightarrow> \<not> P (xs ! i) \<Longrightarrow> P y \<Longrightarrow>
   length (filter P (xs[i := y])) = Suc (length (filter P xs))"
  using filter_update_count [of i xs P y] by simp

lemma tokens_ok_same:
  assumes "tokens_ok evs s" and "gos s' = gos s" and "mainpc s' = mainpc s"
    and "e \<noteq> Acquire" and "\<not> is_Release e"
  shows "tokens_ok (evs @ [e]) s'"
  using assms(1,4,5) unfolding tokens_ok_def assms(2,3) by simp

lemma tokens_ok_move:
  assumes t: "tokens_ok evs s" and i: "i < length (gos s)"
    and g: "gos s' = (gos s)[i := (gos s ! i)\<lparr>gpc := p\<rparr>]"
    and m: "mainpc s' = mainpc s"
    and e: "e \<noteq> Acquire"
    and r: "if is_Release e then gpc (gos s ! i) \<noteq> PFinished \<and> p = PFinished
            else gpc (gos s ! i) \<noteq> PFinished \<and> p \<noteq> PFinished"
  shows "tokens_ok (evs @ [e]) s'"
proof (cases "is_Release e")
  case True
  with r have "length (filter (\<lambda>g. gpc g = PFinished) (gos s')) =
      Suc (length (filter (\<lambda>g. gpc g = PFinished) (gos s)))"
    unfolding g using i by (intro filter_update_gain) simp_all
  with t e True show ?thesis
    unfolding tokens_ok_def m by (simp add: g)
next
  case False
  with r have "length (filter (\<lambda>g. gpc g = PFinished) (gos s')) =
      length (filter (\<lambda>g. gpc g = PFinished) (gos s))"
    unfolding g using i by (intro filter_update_same) simp_all
  with t e False show ?thesis
    unfolding tokens_ok_def m by (simp add: g)
qed

lemma tokens_ok_step:
  assumes t: "tokens_ok evs s" and st: "step cfg e s = Some s'"
  shows "tokens_ok (evs @ [e]) s'"
  using st
proof (cases rule: step_cases)
  case Tick
  then show ?thesis by (intro tokens_ok_same [OF t]) (simp_all add: is_Release_def)
next
  case Acquire
  with t show ?thesis
    by (auto simp: tokens_ok_def step_Acquire_def is_Release_def split: mpc.splits if_splits)
next
  case AddWg
  with t show ?thesis
    by (auto simp: tokens_ok_def step_AddWg_def is_Release_def split: mpc.splits if_splits)
next
  case Go
  with t show ?thesis
    by (auto simp: tokens_ok_def step_Go_def is_Release_def split: mpc.splits if_splits)
next
  case Wait
  with t show ?thesis
    by (auto simp: tokens_ok_def step_Wait_def is_Release_def split: mpc.splits if_splits)
next
  case (Store i)
  then have "i < length (gos s)" "gos s' = (gos s)[i := (gos s ! i)\<lparr>gpc := PCreate (clock s)\<rparr>]"
    "mainpc s' = mainpc s" "gpc (gos s ! i) = PStart"
    by (auto simp: step_Store_def at_pc_Some set_pc_def split: option.splits pc.splits)
  then show ?thesis by (intro tokens_ok_move [OF t]) (auto simp: Store is_Release_def)
next
  case (Create i ok)
  then obtain u where "i < length (gos s)"
    "gos s' = (gos s)[i := (gos s ! i)\<lparr>gpc := (if ok then PRun u else PDelete)\<rparr>]"
    "mainpc s' = mainpc s" "gpc (gos s ! i) = PCreate u"
    by (auto simp: step_Create_def at_pc_Some set_pc_def split: option.splits pc.splits if_splits)
  then show ?thesis
    by (intro tokens_ok_move [OF t]) (auto simp: Create is_Release_def split: if_splits)
next
  case (Run i out ok)
  then obtain u where "i < length (gos s)" "gos s' = (gos s)[i := (gos s ! i)\<lparr>gpc := PDelete\<rparr>]"
    "mainpc s' = mainpc s" "gpc (gos s ! i) = PRun u"
    by (auto simp: step_Run_def at_pc_Some set_pc_def split: option.splits pc.splits if_splits)
  then show ?thesis by (intro tokens_ok_move [OF t]) (auto simp: Run is_Release_def)
next
  case (Delete i)
  then have "i < length (gos s)" "gos s' = (gos s)[i := (gos s ! i)\<lparr>gpc := PDone\<rparr>]"
    "mainpc s' = mainpc s" "gpc (gos s ! i) = PDelete"
    by (auto simp: step_Delete_def at_pc_Some set_pc_def split: option.splits pc.splits if_splits)
  then show ?thesis by (intro tokens_ok_move [OF t]) (auto simp: Delete is_Release_def)
next
  case (Done i)
  show ?thesis
  proof (cases "wg s = 0")
    case True
    with Done show ?thesis
      by (intro tokens_ok_same [OF t])
         (auto simp: step_Done_def is_Release_def split: option.splits pc.splits)
  next
    case False
    with Done have "i < length (gos s)" "gos s' = (gos s)[i := (gos s ! i)\<lparr>gpc := PRelease\<rparr>]"
      "mainpc s' = mainpc s" "gpc (gos s ! i) = PDone"
      by (auto simp: step_Done_def at_pc_Some set_pc_def split: option.splits pc.splits)
    then show ?thesis by (intro tokens_ok_move [OF t]) (auto simp: Done is_Release_def)
  qed
next
  case (Release i)
  then have "i < length (gos s)" "gos s' = (gos s)[i := (gos s ! i)\<lparr>gpc := PFinished\<rparr>]"
    "mainpc s' = mainpc s" "gpc (gos s ! i) = PRelease"
    by (auto simp: step_Release_def at_pc_Some set_pc_def split: option.splits pc.splits if_splits)
  then show ?thesis by (intro tokens_ok_move [OF t]) (auto simp: Release is_Release_def)
next
  case (KeyPress ok)
  then show ?thesis
    by (intro tokens_ok_same [OF t])
       (auto simp: step_KeyPress_def is_Release_def split: monitor.splits if_splits)
next
  case (Visit k)
  then show ?thesis
    by (intro tokens_ok_same [OF t])
       (auto simp: step_Visit_def is_Release_def split: monitor.splits if_splits option.splits)
next
  case RangeEnd
  then show ?thesis
    by (intro tokens_ok_same [OF t])
       (auto simp: step_RangeEnd_def is_Release_def split: monitor.splits list.splits)
qed

lemma tokens_ok_exec:
  "exec cfg evs (init cfg fs0) = Some s \<Longrightarrow> tokens_ok evs s"
proof (induction evs arbitrary: s rule: rev_induct)
  case Nil
  then show ?case by (auto simp: tokens_ok_def init_def)
next
  case (snoc e evs)
  from snoc.prems obtain s1 where 1: "exec cfg evs (init cfg fs0) = Some s1"
    and 2: "step cfg e s1 = Some s"
    unfolding exec_snoc by blast
  from tokens_ok_step [OF snoc.IH [OF 1] 2] show ?case .
qed

lemma finish_runs:
  assumes c: "count_ok cfg s" and i: "i < length (gos s)" and live: "mainpc s \<noteq> MExited"
    and p: "gpc (gos s ! i) \<noteq> PFinished"
  shows "\<exists>s'. exec cfg (finish (gpc (gos s ! i)) i okc okr) s = Some s' \<and>
           gpc (gos s' ! i) = PFinished \<and> sem s' + 1 = sem s"
proof -
  from c have np: "\<not> panicked s" by (simp add: count_ok_def)
  have h: "holding (gos s ! i)" using p by (simp add: holding_def)
  from filter_nth_pos [of i "gos s" holding] i h c have sem: "sem s \<noteq> 0"
    by (simp add: count_ok_def)
  have wg: "wg s \<noteq> 0" if "gpc (gos s ! i) \<noteq> PRelease"
  proof -
    from that p have "executing (gos s ! i)" by (simp add: executing_def)
    with filter_nth_pos [of i "gos s" executing] i c show ?thesis
      by (simp add: count_ok_def)
  qed
  show ?thesis
  proof (cases "gpc (gos s ! i)")
    case PFinished
    with p show ?thesis by simp
  next
    case PRelease
    with i np live sem show ?thesis
      by (simp add: finish_def step_defs)
  next
    case PDone
    with i np live sem wg show ?thesis
      by (simp add: finish_def step_defs)
  next
    case PDelete
    with i np live sem wg show ?thesis
      by (simp add: finish_def step_defs)
  next
    case (PRun t)
    with i np live sem wg show ?thesis
      by (simp add: finish_def step_defs)
  next
    case (PCreate t)
    with i np live sem wg show ?thesis
      by (cases okc) (simp_all add: finish_def step_defs)
  next
    case PStart
    with i np live sem wg show ?thesis
      by (cases okc) (simp_all add: finish_def step_defs)
  qed
qed

lemma release_enabled:
  assumes c: "count_ok cfg s" and i: "i < length (gos s)" and live: "mainpc s \<noteq> MExited"
    and p: "gpc (gos s ! i) = PRelease"
  shows "\<exists>s'. step cfg (Release i) s = Some s' \<and> sem s' + 1 = sem s \<and>
           gpc (gos s' ! i) = PFinished"
proof -
  from p have "gpc (gos s ! i) \<noteq> PFinished" by simp
  from finish_runs [OF c i live this, of True True] p show ?thesis
    by (auto simp: finish_def split: option.splits)
qed

lemma example_returned_runs:
  "\<exists>s. exec example_cfg example_returned (init example_cfg Map.empty) = Some s \<and>
     gos s = [\<lparr>gmodule = ''pslist'', gpc = PRelease\<rparr>, \<lparr>gmodule = ''pstree'', gpc = PRelease\<rparr>] \<and>
     mainpc s = MLoop 2 \<and> sem s = 2 \<and>
     console s = [UsingUpTo 2, RunningModule ''pslist'', ErrCreateOutput ''pstree'',
                  Completed ''pslist'' 2]"
  by (simp add: example_cfg_def example_returned_def step_defs)

text \<open>
  C2. In every state of every run, for every capacity and module list: the tokens in
  \<open>sem\<close> are exactly those of the goroutines that have not yet received from it (plus
  the one sent for the goroutine \<^verbatim>\<open>main\<close> is starting), whatever happened to their
  jobs; they never exceed the capacity; so at most \<open>capacity\<close> executors are inside
  \<^verbatim>\<open>runModule\<close>, and the registry never holds more than \<open>min capacity (length modules)\<close>
  entries. Over the run, one token has been sent per goroutine started (and one for the
  goroutine being started) and one received per goroutine finished. While the process
  lives, every job that has not finished can run to its end whatever \<^verbatim>\<open>os.Create\<close> and
  \<^verbatim>\<open>cmd.Run\<close> answer, and that end takes one token out of \<open>sem\<close>; in particular a job
  that has returned from \<^verbatim>\<open>runModule\<close> can always receive from \<open>sem\<close>.
\<close>

theorem bounded_concurrency:
  assumes run: "exec cfg evs (init cfg fs0) = Some s"
  shows "sem s = length (filter holding (gos s)) +
           (case mainpc s of MAdd _ \<Rightarrow> 1 | MGo _ \<Rightarrow> 1 | _ \<Rightarrow> 0) \<and>
         sem s \<le> capacity cfg \<and>
         length (filter executing (gos s)) \<le> capacity cfg \<and>
         length (runningModules s) \<le> min (capacity cfg) (length (modules cfg)) \<and>
         length (filter (\<lambda>e. e = Acquire) evs) =
           length (gos s) + (case mainpc s of MAdd _ \<Rightarrow> 1 | MGo _ \<Rightarrow> 1 | _ \<Rightarrow> 0) \<and>
         length (filter is_Release evs) = length (filter (\<lambda>g. gpc g = PFinished) (gos s)) \<and>
         (\<forall>i okc okr. i < length (gos s) \<longrightarrow> mainpc s \<noteq> MExited \<longrightarrow>
            gpc (gos s ! i) \<noteq> PFinished \<longrightarrow>
            (\<exists>s'. exec cfg (finish (gpc (gos s ! i)) i okc okr) s = Some s' \<and>
                  gpc (gos s' ! i) = PFinished \<and> sem s' + 1 = sem s)) \<and>
         (\<forall>i. i < length (gos s) \<longrightarrow> mainpc s \<noteq> MExited \<longrightarrow> gpc (gos s ! i) = PRelease \<longrightarrow>
            (\<exists>s'. step cfg (Release i) s = Some s' \<and> sem s' + 1 = sem s \<and>
                  gpc (gos s' ! i) = PFinished))"
proof -
  have c: "count_ok cfg s" using count_ok_exec [OF count_ok_init run] .
  have r: "reg_ok s" using reg_ok_exec [OF reg_ok_init run] .
  have 1: "sem s = length (filter holding (gos s)) +
           (case mainpc s of MAdd _ \<Rightarrow> 1 | MGo _ \<Rightarrow> 1 | _ \<Rightarrow> 0)"
    and 2: "sem s \<le> capacity cfg" and 3: "length (gos s) \<le> length (modules cfg)"
    using c by (simp_all add: count_ok_def)
  have eh: "length (filter executing (gos s)) \<le> length (filter holding (gos s))"
    by (rule filter_le_mono) (simp add: executing_def holding_def)
  have re: "length (filter registered (gos s)) \<le> length (filter executing (gos s))"
    by (rule filter_le_mono) (auto simp: executing_def registered_def split: pc.splits)
  have rg: "length (filter registered (gos s)) \<le> length (gos s)"
    by simp
  from 2 3 eh re rg registry_le_registered [OF r] 1
  have 4: "length (filter executing (gos s)) \<le> capacity cfg"
    and 5: "length (runningModules s) \<le> min (capacity cfg) (length (modules cfg))"
    by linarith+
  from tokens_ok_exec [OF run]
  have 6: "length (filter (\<lambda>e. e = Acquire) evs) =
           length (gos s) + (case mainpc s of MAdd _ \<Rightarrow> 1 | MGo _ \<Rightarrow> 1 | _ \<Rightarrow> 0)"
    and 7: "length (filter is_Release evs) = length (filter (\<lambda>g. gpc g = PFinished) (gos s))"
    by (simp_all add: tokens_ok_def)
  have 8: "\<forall>i okc okr. i < length (gos s) \<longrightarrow> mainpc s \<noteq> MExited \<longrightarrow>
            gpc (gos s ! i) \<noteq> PFinished \<longrightarrow>
            (\<exists>s'. exec cfg (finish (gpc (gos s ! i)) i okc okr) s = Some s' \<and>
                  gpc (gos s' ! i) = PFinished \<and> sem s' + 1 = sem s)"
    using finish_runs [OF c] by blast
  have 9: "\<forall>i. i < length (gos s) \<longrightarrow> mainpc s \<noteq> MExited \<longrightarrow> gpc (gos s ! i) = PRelease \<longrightarrow>
            (\<exists>s'. step cfg (Release i) s = Some s' \<and> sem s' + 1 = sem s \<and>
                  gpc (gos s' ! i) = PFinished)"
    using release_enabled [OF c] by blast
  from 1 2 4 5 6 7 8 9 show ?thesis by (intro conjI)
qed

theorem bounded_concurrency_witness:
  "\<exists>s s' t. exec example_cfg example_busy (init example_cfg Map.empty) = Some s \<and>
       length (runningModules s) = 2 \<and>
       length (runningModules s) \<le> min (capacity example_cfg) (length (modules example_cfg)) \<and>
       exec example_cfg example_returned (init example_cfg Map.empty) = Some s' \<and>
       console s' = [UsingUpTo 2, RunningModule ''pslist'', ErrCreateOutput ''pstree'',
                     Completed ''pslist'' 2] \<and>
       sem s' = 2 \<and> step example_cfg (Release 1) s' = Some t \<and> sem t = 1 \<and>
       gpc (gos t ! 1) = PFinished"
proof -
  from example_busy_runs obtain s
    where run: "exec example_cfg example_busy (init example_cfg Map.empty) = Some s"
      and two: "length (runningModules s) = 2"
    by blast
  from example_returned_runs obtain s'
    where run': "exec example_cfg example_returned (init example_cfg Map.empty) = Some s'"
      and g: "gos s' = [\<lparr>gmodule = ''pslist'', gpc = PRelease\<rparr>,
                        \<lparr>gmodule = ''pstree'', gpc = PRelease\<rparr>]"
      and m: "mainpc s' = MLoop 2" and sem: "sem s' = 2"
      and con: "console s' = [UsingUpTo 2, RunningModule ''pslist'', ErrCreateOutput ''pstree'',
                  Completed ''pslist'' 2]"
    by (elim exE conjE)
  note b = bounded_concurrency [OF run, THEN conjunct2, THEN conjunct2, THEN conjunct2,
      THEN conjunct1]
  have i: "1 < length (gos s')" and p: "gpc (gos s' ! 1) = PRelease" and l: "mainpc s' \<noteq> MExited"
    by (simp_all add: g m)
  note rel = bounded_concurrency [OF run', THEN conjunct2, THEN conjunct2, THEN conjunct2,
      THEN conjunct2, THEN conjunct2, THEN conjunct2, THEN conjunct2, rule_format, OF i l p]
  then obtain t
    where st: "step example_cfg (Release 1) s' = Some t" and d: "sem t + 1 = sem s'"
      and f: "gpc (gos t ! 1) = PFinished"
    by (elim exE conjE)
  from d sem have "sem t = 1" by simp
  with run two b run' con sem st f show ?thesis
    by (intro exI [of _ s] exI [of _ s'] exI [of _ t] conjI)
qed

subsection \<open>The registry after the batch\<close>

text \<open>
  C3. When \<^verbatim>\<open>wg.Wait\<close> has returned, the registry is empty: every module of the list
  has been started, and each goroutine has passed its deferred \<^verbatim>\<open>Delete\<close> and
  \<^verbatim>\<open>wg.Done\<close> (it is at the receive from \<open>sem\<close> or finished), whether its job
  succeeded, failed or could not create its file: the run holds the \<^verbatim>\<open>Store\<close> and the
  \<^verbatim>\<open>Delete\<close> of every job of the list.
\<close>

theorem registry_empty_after_runAll:
  assumes run: "exec cfg evs (init cfg fs0) = Some s" and ret: "mainpc s = MExited"
  shows "runningModules s = [] \<and> length (gos s) = length (modules cfg) \<and>
         list_all (\<lambda>g. gpc g = PRelease \<or> gpc g = PFinished) (gos s) \<and>
         list_all (\<lambda>i. Store i \<in> set evs \<and> Delete i \<in> set evs) [0..<length (modules cfg)]"
proof -
  have c: "count_ok cfg s" using count_ok_exec [OF count_ok_init run] .
  have r: "reg_ok s" using reg_ok_exec [OF reg_ok_init run] .
  from c ret have len: "length (gos s) = length (modules cfg)"
    and w: "length (filter executing (gos s)) = 0"
    by (auto simp: count_ok_def)
  then have none: "filter executing (gos s) = []" by simp
  then have out: "list_all (\<lambda>g. gpc g = PRelease \<or> gpc g = PFinished) (gos s)"
    by (auto simp: filter_empty_conv list_all_iff executing_def)
  have "filter registered (gos s) = []"
    using out by (auto simp: filter_empty_conv list_all_iff registered_def)
  with registry_le_registered [OF r] have empty: "runningModules s = []" by simp
  have "Store i \<in> set evs \<and> Delete i \<in> set evs" if i: "i < length (modules cfg)" for i
  proof -
    from i len have i': "i < length (gos s)" by simp
    with out have "gpc (gos s ! i) = PRelease \<or> gpc (gos s ! i) = PFinished"
      by (simp add: list_all_length)
    with hist_ok_at [OF hist_ok_exec [OF run] i' refl] show ?thesis
      by (auto simp: past_def)
  qed
  then have "list_all (\<lambda>i. Store i \<in> set evs \<and> Delete i \<in> set evs) [0..<length (modules cfg)]"
    by (simp add: list_all_iff)
  with empty len out show ?thesis by simp
qed

theorem registry_empty_after_runAll_witness:
  "\<exists>s. exec example_cfg example_run (init example_cfg Map.empty) = Some s \<and>
       mainpc s = MExited \<and> runningModules s = []"
proof -
  from example_run_ends obtain s
    where run: "exec example_cfg example_run (init example_cfg Map.empty) = Some s"
      and ret: "mainpc s = MExited"
    by blast
  from registry_empty_after_runAll [OF run ret] run ret show ?thesis by blast
qed

subsection \<open>The output path\<close>






lemma step_Run_effect:
  assumes "step cfg (Run i out ok) s = Some s'"
  shows "\<exists>start. at_pc s i = Some (PRun start) \<and>
     s' = set_pc i PDelete
            (s\<lparr>invocations := invocations s @ [command cfg (module_of s i)],
               fs := (fs s)(path_of cfg (module_of s i) \<mapsto> out),
               console := console s @
                 [if ok then Completed (module_of s i) (clock s - start)
                  else ErrRunning (module_of s i)]\<rparr>)"
  using assms by (auto simp: step_def step_Run_def split: if_splits option.splits pc.splits)




subsection \<open>Running the tool\<close>

lemma example_invoke_runs:
  "\<exists>s s'. exec example_cfg example_invoke (init example_cfg Map.empty) = Some s \<and>
     step example_cfg (Run 0 ''PID'' True) s = Some s' \<and>
     console s' = [UsingUpTo 2, RunningModule ''pslist'', Completed ''pslist'' 2]"
  by (simp add: example_cfg_def example_invoke_def step_defs)

text \<open>
  C7. When \<^verbatim>\<open>cmd.Run\<close> returns for a job, the executable has been invoked with the
  arguments \<^verbatim>\<open>-f\<close>, the image, \<^verbatim>\<open>-r\<close>, \<^verbatim>\<open>csv\<close> and the module name, its standard output
  connected to the output file of the job (which this job has created) and its standard
  error to nothing; an error of \<^verbatim>\<open>Run\<close> (a launch failure or a non-zero exit) prints the
  failure line, no error prints the completion line with the time since \<open>start\<close>.
\<close>

theorem tool_invocation:
  assumes run: "exec cfg evs (init cfg fs0) = Some s"
    and st: "step cfg (Run i out ok) s = Some s'"
  shows "\<exists>start.
     gpc (gos s ! i) = PRun start \<and> Create i True \<in> set evs \<and>
     invocations s' = invocations s @
       [\<lparr>cmd_path = volatilityPath cfg,
         cmd_args = [''-f'', memoryImage cfg, ''-r'', ''csv'', gmodule (gos s ! i)],
         cmd_stdout = Some (outputFile (PathSeparator cfg) (outputDir cfg) (memoryImage cfg)
                              (gmodule (gos s ! i))),
         cmd_stderr = None\<rparr>] \<and>
     console s' = console s @
       [if ok then Completed (gmodule (gos s ! i)) (clock s - start)
        else ErrRunning (gmodule (gos s ! i))] \<and>
     gos s' = (gos s)[i := (gos s ! i)\<lparr>gpc := PDelete\<rparr>]"
proof -
  from step_Run_effect [OF st] obtain start where p: "at_pc s i = Some (PRun start)"
    and s': "s' = set_pc i PDelete
            (s\<lparr>invocations := invocations s @ [command cfg (module_of s i)],
               fs := (fs s)(path_of cfg (module_of s i) \<mapsto> out),
               console := console s @
                 [if ok then Completed (module_of s i) (clock s - start)
                  else ErrRunning (module_of s i)]\<rparr>)"
    by blast
  from p have i: "i < length (gos s)" and pc: "gpc (gos s ! i) = PRun start"
    by (simp_all add: at_pc_Some)
  from hist_ok_at [OF hist_ok_exec [OF run] i pc] have c: "Create i True \<in> set evs"
    by (simp add: past_def)
  show ?thesis
    by (rule exI [of _ start]) (simp add: pc c s' set_pc_def command_def module_of_def)
qed

theorem tool_invocation_witness:
  "\<exists>s s'. exec example_cfg example_invoke (init example_cfg Map.empty) = Some s \<and>
     step example_cfg (Run 0 ''PID'' True) s = Some s' \<and>
     console s' = [UsingUpTo 2, RunningModule ''pslist'', Completed ''pslist'' 2] \<and>
     invocations s' =
       [\<lparr>cmd_path = ''vol'', cmd_args = [''-f'', ''/cases/mem.raw'', ''-r'', ''csv'', ''pslist''],
         cmd_stdout = Some ''out/mem.raw_pslist.csv'', cmd_stderr = None\<rparr>]"
proof -
  from example_invoke_runs obtain s s'
    where run: "exec example_cfg example_invoke (init example_cfg Map.empty) = Some s"
      and st: "step example_cfg (Run 0 ''PID'' True) s = Some s'"
      and c: "console s' = [UsingUpTo 2, RunningModule ''pslist'', Completed ''pslist'' 2]"
    by blast
  have m: "gmodule (gos s ! 0) = ''pslist''" and inv: "invocations s = []"
    using run by (auto simp: example_cfg_def example_invoke_def step_defs)
  from tool_invocation [OF run st] m inv
  have "invocations s' =
       [\<lparr>cmd_path = ''vol'', cmd_args = [''-f'', ''/cases/mem.raw'', ''-r'', ''csv'', ''pslist''],
         cmd_stdout = Some ''out/mem.raw_pslist.csv'', cmd_stderr = None\<rparr>]"
    by (auto simp: example_cfg_def outputFile_def memoryImageName_def Let_def)
  with run st c show ?thesis by blast
qed

subsection \<open>A job whose output file cannot be created\<close>

lemma step_Create_fail:
  assumes "step cfg (Create i False) s = Some s'"
  shows "\<exists>start. at_pc s i = Some (PCreate start) \<and>
     s' = set_pc i PDelete (s\<lparr>console := console s @ [ErrCreateOutput (module_of s i)]\<rparr>)"
  using assms by (auto simp: step_def step_Create_def split: if_splits option.splits pc.splits)

lemma example_abort_runs:
  "\<exists>s s'. exec example_cfg example_abort (init example_cfg Map.empty) = Some s \<and>
     step example_cfg (Create 0 False) s = Some s' \<and>
     console s' = [UsingUpTo 2, ErrCreateOutput ''pslist''] \<and>
     runningModules s' = [(''pslist'', 1)]"
  by (simp add: example_cfg_def example_abort_def step_defs)

text \<open>
  C1, as the program has it. A job registers first and creates its file second. When
  \<^verbatim>\<open>os.Create\<close> fails, the job has therefore done its \<^verbatim>\<open>Store\<close>; the failure prints the
  error line and sends the job to its deferred calls, the tool is not invoked, no file is
  written, and the registry, the counters, \<^verbatim>\<open>main\<close> and the other goroutines are as
  before (the batch continues); the deferred \<^verbatim>\<open>Delete\<close> can run next and leaves no entry
  for the module.
\<close>

theorem create_failure_aborts_job:
  assumes run: "exec cfg evs (init cfg fs0) = Some s"
    and st: "step cfg (Create i False) s = Some s'"
  shows "Store i \<in> set evs \<and>
     console s' = console s @ [ErrCreateOutput (gmodule (gos s ! i))] \<and>
     gos s' = (gos s)[i := (gos s ! i)\<lparr>gpc := PDelete\<rparr>] \<and>
     invocations s' = invocations s \<and> fs s' = fs s \<and>
     runningModules s' = runningModules s \<and>
     sem s' = sem s \<and> wg s' = wg s \<and> mainpc s' = mainpc s \<and> \<not> panicked s' \<and>
     (\<exists>s''. step cfg (Delete i) s' = Some s'' \<and>
        map_of (runningModules s'') (gmodule (gos s ! i)) = None \<and>
        gpc (gos s'' ! i) = PDone)"
proof -
  from step_Create_fail [OF st] obtain start where p: "at_pc s i = Some (PCreate start)"
    and s': "s' = set_pc i PDelete (s\<lparr>console := console s @ [ErrCreateOutput (module_of s i)]\<rparr>)"
    by blast
  from p have i: "i < length (gos s)" and pc: "gpc (gos s ! i) = PCreate start"
    by (simp_all add: at_pc_Some)
  from hist_ok_at [OF hist_ok_exec [OF run] i pc] have c: "Store i \<in> set evs"
    by (simp add: past_def)
  from st have live: "\<not> panicked s" "mainpc s \<noteq> MExited"
    by (auto simp: step_def split: if_splits)
  have d: "\<exists>s''. step cfg (Delete i) s' = Some s'' \<and>
        map_of (runningModules s'') (gmodule (gos s ! i)) = None \<and>
        gpc (gos s'' ! i) = PDone"
    using i live
    by (simp add: s' step_def step_Delete_def at_pc_def set_pc_def module_of_def
        AList.delete_conv')
  show ?thesis
    using c d i live by (simp add: s' set_pc_def module_of_def)
qed

theorem create_failure_aborts_job_witness:
  "\<exists>s s'. exec example_cfg example_abort (init example_cfg Map.empty) = Some s \<and>
     step example_cfg (Create 0 False) s = Some s' \<and>
     Store 0 \<in> set example_abort \<and> invocations s' = invocations s"
proof -
  from example_abort_runs obtain s s'
    where run: "exec example_cfg example_abort (init example_cfg Map.empty) = Some s"
      and st: "step example_cfg (Create 0 False) s = Some s'"
    by blast
  from create_failure_aborts_job [OF run st] run st show ?thesis by blast
qed

text \<open>
  C1, as stated, fails: the job whose file cannot be created was registered (with its
  start time \<open>1\<close>) before \<^verbatim>\<open>os.Create\<close> was tried, and is still registered when the
  error has been printed.
\<close>

theorem create_failure_registered_counterexample:
  "map_option console (exec example_cfg (example_abort @ [Create 0 False]) (init example_cfg Map.empty))
     = Some [UsingUpTo 2, ErrCreateOutput ''pslist''] \<and>
   map_option runningModules (exec example_cfg [Acquire, AddWg, Go, Tick, Store 0] (init example_cfg Map.empty))
     = Some [(''pslist'', 1)] \<and>
   map_option runningModules (exec example_cfg (example_abort @ [Create 0 False]) (init example_cfg Map.empty))
     = Some [(''pslist'', 1)]"
  by (simp add: example_cfg_def example_abort_def step_defs)

subsection \<open>Two jobs of one name\<close>

lemma step_registry:
  assumes "step cfg e s = Some s'"
  shows "runningModules s' =
     (case e of
        Store k \<Rightarrow> AList.update (module_of s k) (clock s) (runningModules s)
      | Delete k \<Rightarrow> AList.delete (module_of s k) (runningModules s)
      | _ \<Rightarrow> runningModules s)"
  using assms
  by (cases rule: step_cases)
     (auto simp: step_Acquire_def step_AddWg_def step_Go_def step_Wait_def
        step_Store_def step_Create_def step_Run_def step_Delete_def step_Done_def step_Release_def
        step_KeyPress_def step_Visit_def step_RangeEnd_def set_pc_def
        split: mpc.splits option.splits pc.splits if_splits monitor.splits list.splits)

lemma module_of_modules:
  assumes "count_ok cfg s" and "k < length (gos s)"
  shows "module_of s k = modules cfg ! k"
proof -
  from assms have "map gmodule (gos s) ! k = take (length (gos s)) (modules cfg) ! k"
    by (simp add: count_ok_def)
  with assms(2) show ?thesis by (simp add: module_of_def)
qed

lemma no_entry_step:
  assumes c: "count_ok cfg s" and st: "step cfg e s = Some s'"
    and n: "map_of (runningModules s) m = None"
    and e: "\<forall>k. e = Store k \<longrightarrow> modules cfg ! k \<noteq> m"
  shows "map_of (runningModules s') m = None"
proof (cases e)
  case (Store k)
  with st have "k < length (gos s)"
    by (auto simp: step_def step_Store_def at_pc_Some split: if_splits option.splits)
  with module_of_modules [OF c this] e Store have "module_of s k \<noteq> m" by simp
  with step_registry [OF st] n Store show ?thesis
    by (simp add: AList.update_conv')
next
  case (Delete k)
  with step_registry [OF st] n show ?thesis
    by (simp add: AList.delete_conv')
qed (use step_registry [OF st] n in simp_all)

lemma no_entry_exec:
  assumes "count_ok cfg s" and "exec cfg evs s = Some s'"
    and "map_of (runningModules s) m = None"
    and "\<forall>k. Store k \<in> set evs \<longrightarrow> modules cfg ! k \<noteq> m"
  shows "map_of (runningModules s') m = None"
  using assms
proof (induction evs arbitrary: s)
  case Nil
  then show ?case by simp
next
  case (Cons e es)
  from Cons.prems(2) obtain s1 where 1: "step cfg e s = Some s1" and 2: "exec cfg es s1 = Some s'"
    by (auto split: option.splits)
  have "map_of (runningModules s1) m = None"
    using no_entry_step [OF Cons.prems(1) 1 Cons.prems(3)] Cons.prems(4) by simp
  from Cons.IH [OF count_ok_step [OF Cons.prems(1) 1] 2 this] Cons.prems(4)
  show ?case by simp
qed

lemma step_Delete_effect:
  assumes "step cfg (Delete i) s = Some s'"
  shows "at_pc s i = Some PDelete \<and>
     s' = set_pc i PDone
            (s\<lparr>runningModules := AList.delete (module_of s i) (runningModules s)\<rparr>)"
  using assms by (auto simp: step_def step_Delete_def split: if_splits option.splits pc.splits)

lemma step_Visit_absent:
  assumes "step cfg (Visit k) s = Some s'" and "map_of (runningModules s) k = None"
  shows "console s' = console s \<and>
    (\<exists>pending seen. mon s = MonRange pending seen \<and> mon s' = MonRange (removeAll k pending) seen)"
  using assms
  by (auto simp: step_def step_Visit_def split: if_splits option.splits monitor.splits)

lemma dup_overlap_runs:
  "\<exists>s s' s''. exec dup_cfg dup_overlap (init dup_cfg Map.empty) = Some s \<and>
     step dup_cfg (Delete 0) s = Some s' \<and> exec dup_cfg dup_rest s' = Some s'' \<and>
     gos s = [\<lparr>gmodule = ''pslist'', gpc = PDelete\<rparr>, \<lparr>gmodule = ''pslist'', gpc = PRun 1\<rparr>] \<and>
     gpc (gos s'' ! 1) = PRun 1 \<and> mon s'' = MonRange [] []"
  by (simp add: dup_cfg_def dup_overlap_def dup_rest_def step_defs)

text \<open>
  C5. When two started jobs have the same name and one of them runs its deferred
  \<^verbatim>\<open>Delete\<close> while the other is still between its \<^verbatim>\<open>Store\<close> and its \<^verbatim>\<open>Delete\<close>, the
  registry has no entry for the name afterwards although the other job is still running
  and untouched; as long as no job of that name registers, the name stays absent, and a
  visit of the monitor to that name prints nothing.
\<close>

theorem duplicate_name_unregisters_running_job:
  assumes run: "exec cfg pre (init cfg fs0) = Some s"
    and st: "step cfg (Delete i) s = Some s'"
    and j: "j < length (gos s)" "j \<noteq> i" "gmodule (gos s ! j) = gmodule (gos s ! i)"
    and running: "registered (gos s ! j)"
    and later: "exec cfg evs s' = Some s''"
    and nostore: "\<forall>k. Store k \<in> set evs \<longrightarrow> modules cfg ! k \<noteq> gmodule (gos s ! j)"
  shows "map_of (runningModules s') (gmodule (gos s ! j)) = None \<and>
     gos s' ! j = gos s ! j \<and> registered (gos s' ! j) \<and>
     map_of (runningModules s'') (gmodule (gos s ! j)) = None \<and>
     (\<forall>t. step cfg (Visit (gmodule (gos s ! j))) s'' = Some t \<longrightarrow> console t = console s'')"
proof -
  from step_Delete_effect [OF st]
  have s': "s' = set_pc i PDone
            (s\<lparr>runningModules := AList.delete (module_of s i) (runningModules s)\<rparr>)"
    by simp
  have 1: "map_of (runningModules s') (gmodule (gos s ! j)) = None"
    using j by (simp add: s' set_pc_def module_of_def AList.delete_conv')
  have 2: "gos s' ! j = gos s ! j"
    using j by (simp add: s' set_pc_def)
  have c: "count_ok cfg s'"
    using count_ok_step [OF count_ok_exec [OF count_ok_init run] st] .
  have 3: "map_of (runningModules s'') (gmodule (gos s ! j)) = None"
    using no_entry_exec [OF c later 1 nostore] .
  have 4: "\<forall>t. step cfg (Visit (gmodule (gos s ! j))) s'' = Some t \<longrightarrow> console t = console s''"
    using step_Visit_absent 3 by blast
  from 1 2 3 4 running show ?thesis by simp
qed

theorem duplicate_name_unregisters_running_job_witness:
  "\<exists>s s' s''. exec dup_cfg dup_overlap (init dup_cfg Map.empty) = Some s \<and>
     step dup_cfg (Delete 0) s = Some s' \<and> exec dup_cfg dup_rest s' = Some s'' \<and>
     gpc (gos s' ! 1) = PRun 1 \<and> gpc (gos s'' ! 1) = PRun 1 \<and>
     map_of (runningModules s') ''pslist'' = None \<and>
     map_of (runningModules s'') ''pslist'' = None \<and> mon s'' = MonRange [] []"
proof -
  from dup_overlap_runs obtain s s' s''
    where run: "exec dup_cfg dup_overlap (init dup_cfg Map.empty) = Some s"
      and st: "step dup_cfg (Delete 0) s = Some s'"
      and later: "exec dup_cfg dup_rest s' = Some s''"
      and g: "gos s = [\<lparr>gmodule = ''pslist'', gpc = PDelete\<rparr>, \<lparr>gmodule = ''pslist'', gpc = PRun 1\<rparr>]"
      and p: "gpc (gos s'' ! 1) = PRun 1"
      and m: "mon s'' = MonRange [] []"
    by blast
  have r: "registered (gos s ! 1)" by (simp add: g registered_def)
  have n: "\<forall>k. Store k \<in> set dup_rest \<longrightarrow> modules dup_cfg ! k \<noteq> gmodule (gos s ! 1)"
    by (simp add: dup_rest_def)
  from duplicate_name_unregisters_running_job [OF run st _ _ _ r later n, of ] g
  have "map_of (runningModules s') ''pslist'' = None \<and> gos s' ! 1 = gos s ! 1 \<and>
    map_of (runningModules s'') ''pslist'' = None"
    by simp
  with run st later g m p show ?thesis
    by (intro exI [of _ s] exI [of _ s'] exI [of _ s'']) simp
qed

subsection \<open>What the monitor prints\<close>



lemma registries_nonempty: "runningModules s \<in> set (registries cfg evs s)"
  by (cases evs) simp_all

lemma registries_Cons:
  "step cfg e s = Some s1 \<Longrightarrow> set (registries cfg es s1) \<subseteq> set (registries cfg (e # es) s)"
  by auto









subsection \<open>Fatal input failures\<close>

lemma collect_modules_filter:
  "collect_modules acc toks = acc @ filter (\<lambda>t. t \<noteq> []) toks"
  by (induction toks arbitrary: acc) simp_all

lemma main_start_Inr:
  assumes "main_start e = Inr cfg"
  shows "\<exists>content toks. files e (flag_m e) = Some content \<and>
     scan_lines content = (toks, False) \<and>
     cfg = \<lparr>volatilityPath = flag_p e, memoryImage = flag_i e,
             outputDir = flag_o e, modules = filter (\<lambda>t. t \<noteq> []) toks,
             capacity = nat (numGoroutines (NumCPU e)),
             PathSeparator = separator e\<rparr>"
  using assms
  by (auto simp: main_start_def collect_modules_filter split: if_splits option.splits prod.splits)

text \<open>
  C9. When the output directory cannot be created, or the job list cannot be opened (or
  its scan ends in an error), the process exits with code \<open>1\<close> after one message: no
  event of the dispatcher ever happens, and no state of the dispatch loop (hence no
  goroutine and no registry entry) exists under any schedule.
\<close>

theorem fatal_input_failure:
  assumes "\<not> mkdirAll_ok e \<or> files e (flag_m e) = None \<or>
           (\<exists>content. files e (flag_m e) = Some content \<and> snd (scan_lines content))"
  shows "(\<exists>out. program e [] = Some (Exited 1 out)) \<and>
         (\<forall>evs. evs \<noteq> [] \<longrightarrow> program e evs = None) \<and>
         (\<forall>evs s. program e evs \<noteq> Some (Dispatching s))"
proof -
  from assms have "\<exists>out. main_start e = Inl (out, 1)"
    by (auto simp: main_start_def split: option.splits prod.splits)
  then obtain out where "main_start e = Inl (out, 1)" by blast
  then show ?thesis by (simp add: program_def)
qed

theorem fatal_input_failure_witness:
  "\<not> mkdirAll_ok env_nodir \<and> program env_nodir [] = Some (Exited 1 [ErrCreateOutputDir]) \<and>
   program env_nodir [Acquire] = None"
proof -
  have h: "\<not> mkdirAll_ok env_nodir" by (simp add: env_nodir_def)
  have "program env_nodir [] = Some (Exited 1 [ErrCreateOutputDir])"
    by (simp add: program_def main_start_def env_nodir_def)
  with h fatal_input_failure [of env_nodir] show ?thesis by auto
qed

subsection \<open>From the job list to the jobs\<close>























subsection \<open>Concurrency limit\<close>

text \<open>
  C8. The concurrency limit is the number of CPUs minus one, with a floor of one: for
  every reported CPU count it is \<open>max 1 (numCPU - 1)\<close>, hence never below one.
\<close>

theorem numGoroutines_floor:
  "numGoroutines numCPU = max 1 (numCPU - 1) \<and> 1 \<le> numGoroutines numCPU"
  by (simp add: numGoroutines_def Let_def max_def)

end
